theory Spec2Isabelle
  imports Main "HOL-Library.Word" "HOL-Library.List_Lexorder"
begin

unbundle bit_operations_syntax

section \<open>Shared types\<close>

type_synonym byte = "8 word"
type_synonym u16 = "16 word"
type_synonym u32 = "32 word"
type_synonym u64 = "64 word"

text \<open>
  The C++ aborts (\<open>CHECK\<close>), throws (reader exceptions) or asserts (\<open>ASSERT\<close>); each of
  these exits is a value of \<open>error\<close>:
  \<^item> \<open>EndOfInput\<close>: a byte or bit source is exhausted in the middle of a read;
  \<^item> \<open>Overflow\<close>: a universal code longer than 64 bits;
  \<^item> \<open>UnsupportedVersion\<close>: \<open>CHECK_EQUAL(version, kLatest...Version)\<close> fails;
  \<^item> \<open>InconsistentKeys\<close>: \<open>CHECK_EQUAL(numSegsForThisFid % numDirs, 0)\<close> fails;
  \<^item> \<open>InvalidRestriction\<close>: one of the \<open>CHECK\<close>s of \<open>SerializeSingleType\<close> fails;
  \<^item> \<open>AssertFailed\<close>: an \<open>ASSERT\<close> fails in a debug build;
  \<^item> \<open>OutOfBounds\<close>: an unchecked read of a vector element that does not exist.
\<close>

datatype error =
  EndOfInput | Overflow | UnsupportedVersion | InconsistentKeys | InvalidRestriction
  | AssertFailed | OutOfBounds

section \<open>Bit I/O\<close>

text \<open>
  Modelled from the spec: \<open>coding/bit_streams.hpp\<close> (\<open>BitWriter\<close>, \<open>BitReader\<close>) is not
  among the sources. The spec (4.1): the writer appends the low \<open>k\<close> bits of a value
  LSB-first and spills complete bytes to the sink; on drop a partial byte is padded with
  zero bits and flushed. The reader pulls bits LSB-first from a byte source; reading past
  the end fails; after its drop, byte reads resume at the next byte boundary.

  A writer is the list of bits written since its construction (oldest first); complete
  bytes reach the sink in order, so at its drop the sink has received the packing of
  that list, the last byte padded with zeros. A reader is the list of bits of the source
  not read yet.
\<close>

type_synonym BitWriter = "bool list"
type_synonym BitReader = "bool list"

fun bits_lsb :: "nat \<Rightarrow> nat \<Rightarrow> bool list" where
  "bits_lsb 0 v = []"
| "bits_lsb (Suc k) v = odd v # bits_lsb k (v div 2)"

fun val_lsb :: "bool list \<Rightarrow> nat" where
  "val_lsb [] = 0"
| "val_lsb (b # bs) = of_bool b + 2 * val_lsb bs"

definition bits_msb :: "nat \<Rightarrow> nat \<Rightarrow> bool list" where
  "bits_msb k v = rev (bits_lsb k v)"

definition val_msb :: "bool list \<Rightarrow> nat" where
  "val_msb bs = val_lsb (rev bs)"

definition BitWriter_Write :: "BitWriter \<Rightarrow> nat \<Rightarrow> nat \<Rightarrow> BitWriter" where
  "BitWriter_Write w v k = w @ bits_lsb k v"

fun bytes_of_bits :: "bool list \<Rightarrow> byte list" where
  "bytes_of_bits [] = []"
| "bytes_of_bits (b # bs) =
     (of_nat (val_lsb (take 8 (b # bs))) :: byte) # bytes_of_bits (drop 7 bs)"

text \<open>The number of zero bits that pad \<open>n\<close> bits to a byte boundary.\<close>

definition padding :: "nat \<Rightarrow> nat" where
  "padding n = (8 - n mod 8) mod 8"

definition BitWriter_drop :: "byte list \<Rightarrow> BitWriter \<Rightarrow> byte list" where
  "BitWriter_drop sink w = sink @ bytes_of_bits w"

definition bits_of_byte :: "byte \<Rightarrow> bool list" where
  "bits_of_byte x = bits_lsb 8 (unat x)"

definition bits_of_bytes :: "byte list \<Rightarrow> bool list" where
  "bits_of_bytes xs = concat (map bits_of_byte xs)"

definition BitReader_open :: "byte list \<Rightarrow> BitReader" where
  "BitReader_open src = bits_of_bytes src"

text \<open>The source after the drop of a reader opened on \<open>src\<close> that has \<open>r\<close> left: the
  bytes the reader has pulled are gone, the one it was in the middle of included.\<close>

definition BitReader_drop :: "byte list \<Rightarrow> BitReader \<Rightarrow> byte list" where
  "BitReader_drop src r = drop ((8 * length src - length r + 7) div 8) src"

definition BitReader_Read :: "BitReader \<Rightarrow> nat \<Rightarrow> error + (nat \<times> BitReader)" where
  "BitReader_Read r k =
     (if length r < k then Inl EndOfInput else Inr (val_lsb (take k r), drop k r))"

section \<open>Universal integer codes\<close>

text \<open>
  Modelled from the spec: \<open>coding/elias_coder.hpp\<close> (\<open>GammaCoder\<close>, \<open>DeltaCoder\<close>) is not
  among the sources. The spec (4.2), for \<open>n \<ge> 1\<close> of bit length \<open>L\<close>: gamma emits
  \<open>L - 1\<close> zero bits, then \<open>n\<close> in \<open>L\<close> bits most significant first; delta
  gamma-encodes \<open>L\<close>, then emits the low \<open>L - 1\<close> bits of \<open>n\<close> most significant first.
  Encoding 0 fails and writes nothing. Decoding counts the leading zeros \<open>z\<close> (at most
  63) and reads the \<open>z + 1\<close> bits that start at the first one bit.
\<close>

fun bitlen :: "nat \<Rightarrow> nat" where
  "bitlen n = (if n = 0 then 0 else Suc (bitlen (n div 2)))"

declare bitlen.simps [simp del]

definition gamma_bits :: "nat \<Rightarrow> bool list" where
  "gamma_bits n = replicate (bitlen n - 1) False @ bits_msb (bitlen n) n"

definition delta_bits :: "nat \<Rightarrow> bool list" where
  "delta_bits n = gamma_bits (bitlen n) @ bits_msb (bitlen n - 1) n"

definition GammaCoder_Encode :: "BitWriter \<Rightarrow> u64 \<Rightarrow> bool \<times> BitWriter" where
  "GammaCoder_Encode w v = (if v = 0 then (False, w) else (True, w @ gamma_bits (unat v)))"

definition DeltaCoder_Encode :: "BitWriter \<Rightarrow> u64 \<Rightarrow> bool \<times> BitWriter" where
  "DeltaCoder_Encode w v = (if v = 0 then (False, w) else (True, w @ delta_bits (unat v)))"

definition gamma_decode :: "BitReader \<Rightarrow> error + (nat \<times> BitReader)" where
  "gamma_decode r =
     (let z = length (takeWhile Not r); rest = dropWhile Not r
      in if rest = [] then Inl EndOfInput
         else if 63 < z then Inl Overflow
         else if length rest < z + 1 then Inl EndOfInput
         else Inr (val_msb (take (z + 1) rest), drop (z + 1) rest))"

definition GammaCoder_Decode :: "BitReader \<Rightarrow> error + (u64 \<times> BitReader)" where
  "GammaCoder_Decode r =
     (case gamma_decode r of Inl e \<Rightarrow> Inl e | Inr (n, r') \<Rightarrow> Inr (of_nat n, r'))"

definition delta_decode :: "BitReader \<Rightarrow> error + (nat \<times> BitReader)" where
  "delta_decode r =
     (case gamma_decode r of
        Inl e \<Rightarrow> Inl e
      | Inr (l, r') \<Rightarrow>
          if 64 < l then Inl Overflow
          else if length r' < l - 1 then Inl EndOfInput
          else Inr (2 ^ (l - 1) + val_msb (take (l - 1) r'), drop (l - 1) r'))"

definition DeltaCoder_Decode :: "BitReader \<Rightarrow> error + (u64 \<times> BitReader)" where
  "DeltaCoder_Decode r =
     (case delta_decode r of Inl e \<Rightarrow> Inl e | Inr (n, r') \<Rightarrow> Inr (of_nat n, r'))"

section \<open>Byte-level primitives\<close>

text \<open>
  Modelled from the spec: \<open>coding/varint.hpp\<close> (\<open>WriteVarUint\<close>, \<open>ReadVarUint\<close>) is not
  among the sources. The spec (4.4): base 128, 7-bit groups, continuation bit in bit 7;
  the groups go out least significant first. The reader returns the value in the width
  \<open>T\<close> of \<open>ReadVarUint<T>\<close>.
\<close>

fun WriteVarUint :: "nat \<Rightarrow> byte list" where
  "WriteVarUint n =
     (if n < 128 then [of_nat n] else of_nat (n mod 128 + 128) # WriteVarUint (n div 128))"

declare WriteVarUint.simps [simp del]

fun read_varuint :: "byte list \<Rightarrow> error + (nat \<times> byte list)" where
  "read_varuint [] = Inl EndOfInput"
| "read_varuint (b # bs) =
     (if bit b 7
      then (case read_varuint bs of
              Inl e \<Rightarrow> Inl e
            | Inr (v, rest) \<Rightarrow> Inr (unat (b AND 127) + 128 * v, rest))
      else Inr (unat b, bs))"

definition ReadVarUint :: "byte list \<Rightarrow> error + ('a::len word \<times> byte list)" where
  "ReadVarUint src =
     (case read_varuint src of Inl e \<Rightarrow> Inl e | Inr (v, rest) \<Rightarrow> Inr (of_nat v, rest))"

text \<open>Modelled from the spec: \<open>ReadPrimitiveFromSource<uint8_t>\<close> (\<open>coding/reader.hpp\<close>,
  not among the sources) reads one byte and fails at the end of the source.\<close>

definition ReadByte :: "byte list \<Rightarrow> error + (byte \<times> byte list)" where
  "ReadByte src = (case src of [] \<Rightarrow> Inl EndOfInput | b # bs \<Rightarrow> Inr (b, bs))"

section \<open>Traffic keys (\<open>traffic/traffic_info.cpp\<close>)\<close>

text \<open>
  Modelled from the spec: \<open>base/assert.hpp\<close> is not among the sources. \<open>CHECK\<close> is
  compiled into every build and stops the operation; \<open>ASSERT\<close> is compiled into debug
  builds only (the spec, 7: "debug-mode implementations may additionally halt"). A
  function with an \<open>ASSERT\<close> takes the build flavour as its first argument \<open>debug\<close>.
  Sizes and indices of type \<open>size_t\<close> are natural numbers.
\<close>

record RoadSegmentId =
  m_fid :: u32
  m_idx :: u16
  m_dir :: byte

text \<open>Modelled from the spec: the constants of \<open>traffic_info.hpp\<close> (3: "dir: 0 = forward,
  1 = reverse").\<close>

definition kForwardDirection :: byte where
  "kForwardDirection = 0"

definition kReverseDirection :: byte where
  "kReverseDirection = 1"

definition kLatestKeysVersion :: byte where
  "kLatestKeysVersion = 0"

definition kLatestValuesVersion :: byte where
  "kLatestValuesVersion = 0"

text \<open>The first loop of \<open>SerializeTrafficKeys\<close>: the run \<open>[i, j)\<close> of keys with the fid of
  \<open>keys[i]\<close>, its direction flag and its number of segments.\<close>

function group_keys :: "RoadSegmentId list \<Rightarrow> error + (u32 list \<times> nat list \<times> bool list)" where
  "group_keys [] = Inr ([], [], [])"
| "group_keys (k # ks) =
     (let ow = \<not> list_ex (\<lambda>x. m_dir x = kReverseDirection)
                  (k # takeWhile (\<lambda>x. m_fid k = m_fid x) ks);
          numDirs = (if ow then 1 else 2 :: nat);
          numSegsForThisFid = Suc (length (takeWhile (\<lambda>x. m_fid k = m_fid x) ks))
      in if numSegsForThisFid mod numDirs \<noteq> 0 then Inl InconsistentKeys
         else (case group_keys (dropWhile (\<lambda>x. m_fid k = m_fid x) ks) of
                 Inl e \<Rightarrow> Inl e
               | Inr (fids, numSegs, oneWay) \<Rightarrow>
                   Inr (m_fid k # fids, (numSegsForThisFid div numDirs) # numSegs,
                        ow # oneWay)))"
  by pat_completeness auto
termination
  by (relation "measure length") (auto simp: length_dropWhile_le less_Suc_eq_le)

text \<open>The runs of equal fid that the loop walks over, as lists of keys.\<close>

function fid_groups :: "RoadSegmentId list \<Rightarrow> RoadSegmentId list list" where
  "fid_groups [] = []"
| "fid_groups (k # ks) =
     (k # takeWhile (\<lambda>x. m_fid k = m_fid x) ks) #
     fid_groups (dropWhile (\<lambda>x. m_fid k = m_fid x) ks)"
  by pat_completeness auto
termination
  by (relation "measure length") (auto simp: length_dropWhile_le less_Suc_eq_le)

definition bad_group :: "RoadSegmentId list \<Rightarrow> bool" where
  "bad_group g = (list_ex (\<lambda>k. m_dir k = kReverseDirection) g \<and> odd (length g))"

fun encode_fids :: "bool \<Rightarrow> u32 \<Rightarrow> u32 list \<Rightarrow> BitWriter \<Rightarrow> error + BitWriter" where
  "encode_fids debug prevFid [] w = Inr w"
| "encode_fids debug prevFid (fid # fids) w =
     (let fidDiff = fid - prevFid;
          r = GammaCoder_Encode w (ucast (fidDiff + 1))
      in if debug \<and> \<not> fst r then Inl AssertFailed else encode_fids debug fid fids (snd r))"

fun encode_numSegs :: "bool \<Rightarrow> nat list \<Rightarrow> BitWriter \<Rightarrow> error + BitWriter" where
  "encode_numSegs debug [] w = Inr w"
| "encode_numSegs debug (s # ss) w =
     (let r = GammaCoder_Encode w (of_nat (s + 1))
      in if debug \<and> \<not> fst r then Inl AssertFailed else encode_numSegs debug ss (snd r))"

fun write_oneWay :: "bool list \<Rightarrow> BitWriter \<Rightarrow> BitWriter" where
  "write_oneWay [] w = w"
| "write_oneWay (val # vals) w = write_oneWay vals (BitWriter_Write w (if val then 1 else 0) 1)"

definition SerializeTrafficKeys :: "bool \<Rightarrow> RoadSegmentId list \<Rightarrow> error + byte list" where
  "SerializeTrafficKeys debug keys =
     (case group_keys keys of
        Inl e \<Rightarrow> Inl e
      | Inr (fids, numSegs, oneWay) \<Rightarrow>
          (let memWriter = kLatestKeysVersion # WriteVarUint (length fids)
           in case encode_fids debug 0 fids [] of
                Inl e \<Rightarrow> Inl e
              | Inr w1 \<Rightarrow>
                  (case encode_numSegs debug numSegs w1 of
                     Inl e \<Rightarrow> Inl e
                   | Inr w2 \<Rightarrow> Inr (BitWriter_drop memWriter (write_oneWay oneWay w2)))))"

fun decode_fids :: "nat \<Rightarrow> u32 \<Rightarrow> BitReader \<Rightarrow> error + (u32 list \<times> BitReader)" where
  "decode_fids 0 prevFid r = Inr ([], r)"
| "decode_fids (Suc n) prevFid r =
     (case GammaCoder_Decode r of
        Inl e \<Rightarrow> Inl e
      | Inr (d, r') \<Rightarrow>
          (case decode_fids n (prevFid + ucast (d - 1)) r' of
             Inl e \<Rightarrow> Inl e
           | Inr (fids, r'') \<Rightarrow> Inr ((prevFid + ucast (d - 1)) # fids, r'')))"

fun decode_numSegs :: "nat \<Rightarrow> BitReader \<Rightarrow> error + (nat list \<times> BitReader)" where
  "decode_numSegs 0 r = Inr ([], r)"
| "decode_numSegs (Suc n) r =
     (case GammaCoder_Decode r of
        Inl e \<Rightarrow> Inl e
      | Inr (d, r') \<Rightarrow>
          (case decode_numSegs n r' of
             Inl e \<Rightarrow> Inl e
           | Inr (ss, r'') \<Rightarrow> Inr (unat (d - 1) # ss, r'')))"

fun decode_oneWay :: "nat \<Rightarrow> BitReader \<Rightarrow> error + (bool list \<times> BitReader)" where
  "decode_oneWay 0 r = Inr ([], r)"
| "decode_oneWay (Suc n) r =
     (case BitReader_Read r 1 of
        Inl e \<Rightarrow> Inl e
      | Inr (b, r') \<Rightarrow>
          (case decode_oneWay n r' of
             Inl e \<Rightarrow> Inl e
           | Inr (ows, r'') \<Rightarrow> Inr ((0 < b) # ows, r'')))"

text \<open>The last loop of \<open>DeserializeTrafficKeys\<close>: \<open>RoadSegmentId key(fid, j, dir)\<close> narrows
  the \<open>size_t\<close> index \<open>j\<close> to \<open>uint16_t\<close>.\<close>

definition expand_group :: "u32 \<Rightarrow> nat \<Rightarrow> bool \<Rightarrow> RoadSegmentId list" where
  "expand_group fid numSeg ow =
     concat (map (\<lambda>j. map (\<lambda>dir. \<lparr>m_fid = fid, m_idx = of_nat j, m_dir = of_nat dir\<rparr>)
                          [0..<(if ow then 1 else 2)])
                 [0..<numSeg])"

fun expand_keys :: "u32 list \<Rightarrow> nat list \<Rightarrow> bool list \<Rightarrow> RoadSegmentId list" where
  "expand_keys (fid # fids) (s # ss) (ow # ows) = expand_group fid s ow @ expand_keys fids ss ows"
| "expand_keys _ _ _ = []"

definition DeserializeTrafficKeys :: "bool \<Rightarrow> byte list \<Rightarrow> error + RoadSegmentId list" where
  "DeserializeTrafficKeys debug data =
     (case ReadByte data of
        Inl e \<Rightarrow> Inl e
      | Inr (version, src1) \<Rightarrow>
          if version \<noteq> kLatestKeysVersion then Inl UnsupportedVersion
          else (case (ReadVarUint src1 :: error + (u64 \<times> byte list)) of
                  Inl e \<Rightarrow> Inl e
                | Inr (n, src2) \<Rightarrow>
                    (case decode_fids (unat n) 0 (BitReader_open src2) of
                       Inl e \<Rightarrow> Inl e
                     | Inr (fids, r1) \<Rightarrow>
                         (case decode_numSegs (unat n) r1 of
                            Inl e \<Rightarrow> Inl e
                          | Inr (numSegs, r2) \<Rightarrow>
                              (case decode_oneWay (unat n) r2 of
                                 Inl e \<Rightarrow> Inl e
                               | Inr (oneWay, r3) \<Rightarrow>
                                   if debug \<and> BitReader_drop src2 r3 \<noteq> []
                                   then Inl AssertFailed
                                   else Inr (expand_keys fids numSegs oneWay))))))"

text \<open>The bits of the first two loops over the bit writer, and the inputs on which every
  \<open>Encode\<close> of the first loop succeeds.\<close>

fun fids_bits :: "u32 \<Rightarrow> u32 list \<Rightarrow> bool list" where
  "fids_bits prevFid [] = []"
| "fids_bits prevFid (fid # fids) =
     gamma_bits (unat (ucast (fid - prevFid + 1) :: u64)) @ fids_bits fid fids"

fun fids_encodable :: "u32 \<Rightarrow> u32 list \<Rightarrow> bool" where
  "fids_encodable prevFid [] = True"
| "fids_encodable prevFid (fid # fids) = (fid - prevFid + 1 \<noteq> 0 \<and> fids_encodable fid fids)"

definition numSegs_bits :: "nat list \<Rightarrow> bool list" where
  "numSegs_bits ss = concat (map (\<lambda>s. gamma_bits (unat (of_nat (s + 1) :: u64))) ss)"

text \<open>Modelled from the spec: \<open>operator<\<close> of \<open>RoadSegmentId\<close> (\<open>traffic_info.hpp\<close>) is
  not among the sources. The spec (3): lexicographic on \<open>(fid, idx, dir)\<close>. The order is
  total, so \<open>std::is_sorted\<close> holds exactly when no later key is less than an earlier
  one.\<close>

definition key_less :: "RoadSegmentId \<Rightarrow> RoadSegmentId \<Rightarrow> bool" where
  "key_less a b =
     (m_fid a < m_fid b \<or>
      (m_fid a = m_fid b \<and>
       (m_idx a < m_idx b \<or> (m_idx a = m_idx b \<and> m_dir a < m_dir b))))"

definition keys_sorted :: "RoadSegmentId list \<Rightarrow> bool" where
  "keys_sorted keys = sorted_wrt (\<lambda>a b. \<not> key_less b a) keys"

text \<open>A fid-group as the key extraction produces it: the segments \<open>0, ..., n - 1\<close> of
  one fid, \<open>n\<close> within the range of the 16-bit index, forward only or in both
  directions with the direction as the inner index.\<close>

definition group_oneWay :: "RoadSegmentId list \<Rightarrow> bool" where
  "group_oneWay g = (\<not> list_ex (\<lambda>k. m_dir k = kReverseDirection) g)"

definition group_numSegs :: "RoadSegmentId list \<Rightarrow> nat" where
  "group_numSegs g = length g div (if group_oneWay g then 1 else 2)"

definition proper_group :: "RoadSegmentId list \<Rightarrow> bool" where
  "proper_group g =
     (group_numSegs g \<le> 65536 \<and>
      g = expand_group (m_fid (hd g)) (group_numSegs g) (group_oneWay g))"

text \<open>The fids of the fid-groups, in the order of the vector: what the key extraction
  of \<open>SerializeTrafficKeys\<close> collects in \<open>fids\<close>.\<close>

definition group_fids :: "RoadSegmentId list \<Rightarrow> u32 list" where
  "group_fids keys = map (\<lambda>g. m_fid (hd g)) (fid_groups keys)"

section \<open>Traffic values (\<open>traffic/traffic_info.cpp\<close>)\<close>

text \<open>
  Modelled from the spec: \<open>traffic/speed_groups.hpp\<close> is not among the sources. A
  \<open>SpeedGroup\<close> is its underlying byte; the spec (3, 6.4) gives it the range \<open>[0, 7]\<close>
  and writes \<open>Unknown\<close> as 0 (scenario S4).
\<close>

type_synonym SpeedGroup = byte

definition Unknown :: SpeedGroup where
  "Unknown = 0"

text \<open>\<open>coding/zlib.hpp\<close> is not among the sources: \<open>deflate\<close> and \<open>inflate\<close> are
  parameters, the bytes \<open>ZLib::Deflate\<close> and \<open>ZLib::Inflate\<close> append to their output
  (\<open>Inl\<close> when \<open>Inflate\<close> throws).\<close>

fun write_values :: "SpeedGroup list \<Rightarrow> BitWriter \<Rightarrow> BitWriter" where
  "write_values [] w = w"
| "write_values (v # vs) w = write_values vs (BitWriter_Write w (unat v) 3)"

definition SerializeTrafficValues :: "(byte list \<Rightarrow> byte list) \<Rightarrow> SpeedGroup list \<Rightarrow> byte list" where
  "SerializeTrafficValues deflate values =
     (let memWriter = kLatestValuesVersion # WriteVarUint (length values);
          buf = BitWriter_drop memWriter (write_values values [])
      in deflate buf)"

fun read_values :: "nat \<Rightarrow> BitReader \<Rightarrow> error + (SpeedGroup list \<times> BitReader)" where
  "read_values 0 r = Inr ([], r)"
| "read_values (Suc n) r =
     (case BitReader_Read r 3 of
        Inl e \<Rightarrow> Inl e
      | Inr (v, r') \<Rightarrow>
          (case read_values n r' of
             Inl e \<Rightarrow> Inl e
           | Inr (vs, r'') \<Rightarrow> Inr (of_nat v # vs, r'')))"

definition DeserializeTrafficValues ::
  "bool \<Rightarrow> (byte list \<Rightarrow> error + byte list) \<Rightarrow> byte list \<Rightarrow> error + SpeedGroup list" where
  "DeserializeTrafficValues debug inflate data =
     (case inflate data of
        Inl e \<Rightarrow> Inl e
      | Inr decompressedData \<Rightarrow>
          (case ReadByte decompressedData of
             Inl e \<Rightarrow> Inl e
           | Inr (version, src1) \<Rightarrow>
               if version \<noteq> kLatestValuesVersion then Inl UnsupportedVersion
               else (case (ReadVarUint src1 :: error + (u32 \<times> byte list)) of
                       Inl e \<Rightarrow> Inl e
                     | Inr (n, src2) \<Rightarrow>
                         (case read_values (unat n) (BitReader_open src2) of
                            Inl e \<Rightarrow> Inl e
                          | Inr (result, r) \<Rightarrow>
                              if debug \<and> BitReader_drop src2 r \<noteq> [] then Inl AssertFailed
                              else Inr result))))"

text \<open>The bits that \<open>SerializeTrafficValues\<close> hands to its bit writer.\<close>

definition values_bits :: "SpeedGroup list \<Rightarrow> bool list" where
  "values_bits vs = concat (map (\<lambda>v. bits_lsb 3 (unat v)) vs)"

section \<open>Coloring (\<open>traffic/traffic_info.cpp\<close>)\<close>

text \<open>\<open>TrafficInfo::Coloring\<close> is a map from keys to speed groups. The counter
  \<open>numUnexpectedKeys\<close> is a \<open>size_t\<close> that the loop decrements, so its wrap-around is
  kept: 64 bits. \<open>numKnown\<close> and \<open>numUnknown\<close> only feed the log line.\<close>

type_synonym Coloring = "RoadSegmentId \<rightharpoonup> SpeedGroup"

fun combine_loop ::
  "Coloring \<Rightarrow> RoadSegmentId list \<Rightarrow> Coloring \<times> u64 \<Rightarrow> Coloring \<times> u64" where
  "combine_loop knownColors [] st = st"
| "combine_loop knownColors (key # keys) (result, numUnexpectedKeys) =
     (case knownColors key of
        None \<Rightarrow> combine_loop knownColors keys (result(key \<mapsto> Unknown), numUnexpectedKeys)
      | Some v \<Rightarrow> combine_loop knownColors keys (result(key \<mapsto> v), numUnexpectedKeys - 1))"

definition CombineColorings :: "bool \<Rightarrow> RoadSegmentId list \<Rightarrow> Coloring \<Rightarrow> error + Coloring" where
  "CombineColorings debug keys knownColors =
     (let st = combine_loop knownColors keys (Map.empty, of_nat (card (dom knownColors)))
      in if debug \<and> snd st \<noteq> 0 then Inl AssertFailed else Inr (fst st))"

section \<open>Routing header (\<open>indexer/routing.hpp\<close>)\<close>

text \<open>
  Modelled from the spec: \<open>WriteToSink\<close> and \<open>ReadPrimitiveFromSource\<close>
  (\<open>coding/write_to_sink.hpp\<close>, \<open>coding/reader.hpp\<close>) are not among the sources. The
  spec (3, 6.1): header integers are little-endian. A read past the end of the source
  fails.
\<close>

definition le_bytes :: "nat \<Rightarrow> 'a::len word \<Rightarrow> byte list" where
  "le_bytes k w = map (\<lambda>i. ucast (drop_bit (8 * i) w)) [0..<k]"

fun le_word :: "byte list \<Rightarrow> 'a::len word" where
  "le_word [] = 0"
| "le_word (b # bs) = ucast b OR push_bit 8 (le_word bs)"

definition WriteToSink :: "byte list \<Rightarrow> 'a::len word \<Rightarrow> byte list" where
  "WriteToSink sink v = sink @ le_bytes (LENGTH('a) div 8) v"

definition ReadPrimitiveFromSource :: "byte list \<Rightarrow> error + ('a::len word \<times> byte list)" where
  "ReadPrimitiveFromSource src =
     (if length src < LENGTH('a) div 8 then Inl EndOfInput
      else Inr (le_word (take (LENGTH('a) div 8) src), drop (LENGTH('a) div 8) src))"

record RoutingHeader =
  m_version :: u16
  m_reserved :: u16
  m_noRestrictionCount :: u32
  m_onlyRestrictionCount :: u32

definition RoutingHeader_Serialize :: "RoutingHeader \<Rightarrow> byte list \<Rightarrow> byte list" where
  "RoutingHeader_Serialize h sink =
     WriteToSink
       (WriteToSink (WriteToSink (WriteToSink sink (m_version h)) (m_reserved h))
          (m_noRestrictionCount h))
       (m_onlyRestrictionCount h)"

definition RoutingHeader_Deserialize :: "byte list \<Rightarrow> error + (RoutingHeader \<times> byte list)" where
  "RoutingHeader_Deserialize src =
     (case ReadPrimitiveFromSource src of
        Inl e \<Rightarrow> Inl e
      | Inr (version, src1) \<Rightarrow>
          (case ReadPrimitiveFromSource src1 of
             Inl e \<Rightarrow> Inl e
           | Inr (reserved, src2) \<Rightarrow>
               (case ReadPrimitiveFromSource src2 of
                  Inl e \<Rightarrow> Inl e
                | Inr (noCount, src3) \<Rightarrow>
                    (case ReadPrimitiveFromSource src3 of
                       Inl e \<Rightarrow> Inl e
                     | Inr (onlyCount, src4) \<Rightarrow>
                         Inr (\<lparr>m_version = version, m_reserved = reserved,
                               m_noRestrictionCount = noCount,
                               m_onlyRestrictionCount = onlyCount\<rparr>, src4)))))"

section \<open>Restrictions (\<open>indexer/routing.hpp\<close>)\<close>

datatype Restriction_Type = No | Only

record Restriction =
  m_featureIds :: "u32 list"
  m_type :: Restriction_Type

text \<open>
  Modelled from the spec: \<open>routing.cpp\<close> (\<open>kInvalidFeatureId\<close>, \<open>IsValid\<close>,
  \<open>operator<\<close>) is not among the sources. The spec (3): the sentinel is \<open>u32::MAX\<close>; a
  restriction that contains the sentinel or has fewer than 2 elements is invalid; the
  order is lexicographic on the type (\<open>No\<close> before \<open>Only\<close>), then on the feature ids.
\<close>

definition kInvalidFeatureId :: u32 where
  "kInvalidFeatureId = 0xFFFFFFFF"

definition IsValid :: "Restriction \<Rightarrow> bool" where
  "IsValid r = (2 \<le> length (m_featureIds r) \<and> kInvalidFeatureId \<notin> set (m_featureIds r))"

fun type_rank :: "Restriction_Type \<Rightarrow> nat" where
  "type_rank No = 0"
| "type_rank Only = 1"

definition restriction_less :: "Restriction \<Rightarrow> Restriction \<Rightarrow> bool" where
  "restriction_less a b =
     (if m_type a \<noteq> m_type b then type_rank (m_type a) < type_rank (m_type b)
      else m_featureIds a < m_featureIds b)"

text \<open>\<open>std::is_sorted\<close>: no element is less than its predecessor.\<close>

fun is_sorted :: "Restriction list \<Rightarrow> bool" where
  "is_sorted (a # b # rs) = (\<not> restriction_less b a \<and> is_sorted (b # rs))"
| "is_sorted _ = True"

text \<open>Modelled from the spec: \<open>base/bits.hpp\<close> is not among the sources. The spec
  (glossary): zig-zag is \<open>(n << 1) ^ (n >> 31)\<close> on a signed 32-bit \<open>n\<close>; decoding is its
  inverse.\<close>

definition ZigZagEncode :: "u32 \<Rightarrow> u32" where
  "ZigZagEncode x = push_bit 1 x XOR signed_drop_bit 31 x"

definition ZigZagDecode :: "u32 \<Rightarrow> u32" where
  "ZigZagDecode x = drop_bit 1 x XOR - (x AND 1)"

text \<open>The inner loop of \<open>SerializeSingleType\<close>. The difference of the two
  \<open>static_cast<int32_t>\<close> wraps; \<open>delta + 1\<close> is 32-bit arithmetic; the result of
  \<open>Encode\<close> is not looked at.\<close>

fun encode_links :: "u32 \<Rightarrow> u32 list \<Rightarrow> BitWriter \<Rightarrow> BitWriter" where
  "encode_links prevLinkFeatureId [] bits = bits"
| "encode_links prevLinkFeatureId (fid # fids) bits =
     (let delta = ZigZagEncode (fid - prevLinkFeatureId)
      in encode_links fid fids (snd (DeltaCoder_Encode bits (ucast (delta + 1)))))"

definition restriction_bits :: "u32 \<Rightarrow> Restriction \<Rightarrow> BitWriter" where
  "restriction_bits prevFisrtLinkFeatureId restriction =
     encode_links prevFisrtLinkFeatureId (m_featureIds restriction)
       (snd (DeltaCoder_Encode [] (of_nat (length (m_featureIds restriction) - 1))))"

fun serialize_loop ::
  "Restriction_Type \<Rightarrow> u32 \<Rightarrow> Restriction list \<Rightarrow> byte list \<Rightarrow> error + byte list" where
  "serialize_loop type prevFisrtLinkFeatureId [] sink = Inr sink"
| "serialize_loop type prevFisrtLinkFeatureId (restriction # rs) sink =
     (if type \<noteq> m_type restriction then Inl InvalidRestriction
      else if \<not> IsValid restriction then Inl InvalidRestriction
      else if \<not> 1 < length (m_featureIds restriction) then Inl InvalidRestriction
      else serialize_loop type (hd (m_featureIds restriction)) rs
             (BitWriter_drop sink (restriction_bits prevFisrtLinkFeatureId restriction)))"

definition SerializeSingleType :: "Restriction list \<Rightarrow> byte list \<Rightarrow> error + byte list" where
  "SerializeSingleType rs sink =
     (case rs of
        [] \<Rightarrow> Inr sink
      | r # _ \<Rightarrow>
          if \<not> is_sorted rs then Inl InvalidRestriction
          else serialize_loop (m_type r) 0 rs sink)"

text \<open>\<open>Serialize(begin, firstOnlyIt, end, sink)\<close>: the two ranges are the lists
  \<open>[begin, firstOnlyIt)\<close> and \<open>[firstOnlyIt, end)\<close>.\<close>

definition Serialize :: "Restriction list \<Rightarrow> Restriction list \<Rightarrow> byte list \<Rightarrow> error + byte list" where
  "Serialize nos onlys sink =
     (case SerializeSingleType nos sink of
        Inl e \<Rightarrow> Inl e
      | Inr sink' \<Rightarrow> SerializeSingleType onlys sink')"

text \<open>The inner loop of \<open>DeserializeSingleType\<close>; \<open>None\<close> is its \<open>return false\<close>.\<close>

fun decode_links :: "nat \<Rightarrow> u32 \<Rightarrow> BitReader \<Rightarrow> error + (u32 list option \<times> BitReader)" where
  "decode_links 0 prevLinkFeatureId bits = Inr (Some [], bits)"
| "decode_links (Suc n) prevLinkFeatureId bits =
     (case DeltaCoder_Decode bits of
        Inl e \<Rightarrow> Inl e
      | Inr (d, bits') \<Rightarrow>
          (let biasedDelta = (ucast d :: u32)
           in if biasedDelta = 0 then Inr (None, bits')
              else (let delta = biasedDelta - 1;
                        fid = ZigZagDecode delta + prevLinkFeatureId
                    in case decode_links n fid bits' of
                         Inl e \<Rightarrow> Inl e
                       | Inr (None, b) \<Rightarrow> Inr (None, b)
                       | Inr (Some fids, b) \<Rightarrow> Inr (Some (fid # fids), b))))"

text \<open>\<open>DeserializeSingleType\<close> returns its \<open>bool\<close>, the vector and the source.
  \<open>biasedLinkNumber + 1\<close> is 32-bit arithmetic; when it wraps to 0 the vector is empty
  and \<open>m_featureIds[0]\<close> reads out of bounds.\<close>

fun DeserializeSingleType ::
  "Restriction_Type \<Rightarrow> nat \<Rightarrow> u32 \<Rightarrow> Restriction list \<Rightarrow> byte list
     \<Rightarrow> error + (bool \<times> Restriction list \<times> byte list)" where
  "DeserializeSingleType type 0 prevFisrtLinkFeatureId restrictions src =
     Inr (True, restrictions, src)"
| "DeserializeSingleType type (Suc n) prevFisrtLinkFeatureId restrictions src =
     (case DeltaCoder_Decode (BitReader_open src) of
        Inl e \<Rightarrow> Inl e
      | Inr (d, bits) \<Rightarrow>
          (let biasedLinkNumber = (ucast d :: u32)
           in if biasedLinkNumber = 0
              then Inr (False, restrictions, BitReader_drop src bits)
              else (case decode_links (unat (biasedLinkNumber + 1)) prevFisrtLinkFeatureId bits of
                      Inl e \<Rightarrow> Inl e
                    | Inr (None, bits') \<Rightarrow> Inr (False, restrictions, BitReader_drop src bits')
                    | Inr (Some fids, bits') \<Rightarrow>
                        (case fids of
                           [] \<Rightarrow> Inl OutOfBounds
                         | fid # _ \<Rightarrow>
                             DeserializeSingleType type n fid
                               (restrictions @ [\<lparr>m_featureIds = fids, m_type = type\<rparr>])
                               (BitReader_drop src bits')))))"

text \<open>\<open>Deserialize\<close> is \<open>void\<close>: the \<open>bool\<close> of \<open>DeserializeSingleType\<close> is dropped.\<close>

definition Deserialize ::
  "RoutingHeader \<Rightarrow> Restriction list \<Rightarrow> byte list \<Rightarrow> error + (Restriction list \<times> byte list)" where
  "Deserialize header restrictions src =
     (case DeserializeSingleType No (unat (m_noRestrictionCount header)) 0 restrictions src of
        Inl e \<Rightarrow> Inl e
      | Inr (ok1, restrictions1, src1) \<Rightarrow>
          (case DeserializeSingleType Only (unat (m_onlyRestrictionCount header)) 0
                  restrictions1 src1 of
             Inl e \<Rightarrow> Inl e
           | Inr (ok2, restrictions2, src2) \<Rightarrow> Inr (restrictions2, src2)))"

text \<open>The bits of the inner loop when every \<open>Encode\<close> succeeds, and the inputs on which
  it does: the zig-zag code of a difference is \<open>0xFFFFFFFF\<close>, and the 32-bit \<open>delta + 1\<close>
  wraps to 0, exactly for the difference \<open>0x80000000\<close>.\<close>

fun links_bits :: "u32 \<Rightarrow> u32 list \<Rightarrow> bool list" where
  "links_bits prevLinkFeatureId [] = []"
| "links_bits prevLinkFeatureId (fid # fids) =
     delta_bits (unat (ucast (ZigZagEncode (fid - prevLinkFeatureId) + 1) :: u64)) @
     links_bits fid fids"

fun links_encodable :: "u32 \<Rightarrow> u32 list \<Rightarrow> bool" where
  "links_encodable prevLinkFeatureId [] = True"
| "links_encodable prevLinkFeatureId (fid # fids) =
     (fid - prevLinkFeatureId \<noteq> 0x80000000 \<and> links_encodable fid fids)"

text \<open>A restriction that passes the \<open>CHECK\<close>s, whose link count fits the 32-bit
  \<open>biasedLinkNumber + 1\<close> of the decoder and whose ids are encodable after the first
  id of its predecessor.\<close>

definition restriction_encodable :: "u32 \<Rightarrow> Restriction \<Rightarrow> bool" where
  "restriction_encodable prevFisrtLinkFeatureId r =
     (IsValid r \<and> length (m_featureIds r) < 2 ^ 32 \<and>
      links_encodable prevFisrtLinkFeatureId (m_featureIds r))"

fun restrictions_encodable :: "u32 \<Rightarrow> Restriction list \<Rightarrow> bool" where
  "restrictions_encodable prevFisrtLinkFeatureId [] = True"
| "restrictions_encodable prevFisrtLinkFeatureId (r # rs) =
     (restriction_encodable prevFisrtLinkFeatureId r \<and>
      restrictions_encodable (hd (m_featureIds r)) rs)"

text \<open>The bytes of a group: one run of whole bytes per restriction.\<close>

fun restriction_chunks :: "u32 \<Rightarrow> Restriction list \<Rightarrow> byte list" where
  "restriction_chunks prevFisrtLinkFeatureId [] = []"
| "restriction_chunks prevFisrtLinkFeatureId (r # rs) =
     bytes_of_bits (restriction_bits prevFisrtLinkFeatureId r) @
     restriction_chunks (hd (m_featureIds r)) rs"

text \<open>The codewords that the loop body of \<open>SerializeSingleType\<close> hands to the bit writer
  of one restriction, with the Elias-delta code written out: the link count less one,
  then for every id the zig-zag code of its difference to the id before, plus one. A
  value of 0 is refused by \<open>DeltaCoder::Encode\<close> and leaves no bits. \<open>restriction_streams\<close>
  is the list of these bit streams for a group, \<open>restriction_runs\<close> the list of their
  bytes after the drop of each bit writer.\<close>

fun link_codewords :: "u32 \<Rightarrow> u32 list \<Rightarrow> bool list" where
  "link_codewords prevLinkFeatureId [] = []"
| "link_codewords prevLinkFeatureId (fid # fids) =
     (if ZigZagEncode (fid - prevLinkFeatureId) + 1 = 0 then []
      else delta_bits (unat (ucast (ZigZagEncode (fid - prevLinkFeatureId) + 1) :: u64))) @
     link_codewords fid fids"

definition restriction_codewords :: "u32 \<Rightarrow> Restriction \<Rightarrow> bool list" where
  "restriction_codewords prevFisrtLinkFeatureId r =
     (if (of_nat (length (m_featureIds r) - 1) :: u64) = 0 then []
      else delta_bits (unat (of_nat (length (m_featureIds r) - 1) :: u64))) @
     link_codewords prevFisrtLinkFeatureId (m_featureIds r)"

fun restriction_streams :: "u32 \<Rightarrow> Restriction list \<Rightarrow> bool list list" where
  "restriction_streams prevFisrtLinkFeatureId [] = []"
| "restriction_streams prevFisrtLinkFeatureId (r # rs) =
     restriction_codewords prevFisrtLinkFeatureId r #
     restriction_streams (hd (m_featureIds r)) rs"

definition restriction_runs :: "u32 \<Rightarrow> Restriction list \<Rightarrow> byte list list" where
  "restriction_runs prevFisrtLinkFeatureId rs =
     map bytes_of_bits (restriction_streams prevFisrtLinkFeatureId rs)"

section \<open>Evaluation lemmas\<close>

lemma bits_of_bytes_Nil [simp]: "bits_of_bytes [] = []"
  by (simp add: bits_of_bytes_def)

lemma bits_of_bytes_Cons [simp]: "bits_of_bytes (x # xs) = bits_of_byte x @ bits_of_bytes xs"
  by (simp add: bits_of_bytes_def)

lemma bits_of_bytes_append [simp]: "bits_of_bytes (xs @ ys) = bits_of_bytes xs @ bits_of_bytes ys"
  by (simp add: bits_of_bytes_def)

lemma bits_lsb_numeral:
  "bits_lsb (numeral k) v = odd v # bits_lsb (pred_numeral k) (v div 2)"
  by (simp add: numeral_eq_Suc)

section \<open>Bits and bytes\<close>

lemma length_bits_lsb [simp]: "length (bits_lsb k v) = k"
  by (induction k arbitrary: v) simp_all

lemma val_lsb_bits_lsb [simp]: "val_lsb (bits_lsb k v) = v mod 2 ^ k"
proof (induction k arbitrary: v)
  case 0
  then show ?case by simp
next
  case (Suc k)
  have "of_bool (odd v) + 2 * (v div 2 mod 2 ^ k) = v mod (2 * 2 ^ k)"
    by (cases "odd v") (simp_all add: mod_mult2_eq odd_iff_mod_2_eq_one)
  with Suc show ?case by simp
qed

lemma val_lsb_less: "val_lsb bs < 2 ^ length bs"
  by (induction bs) (simp_all add: of_bool_def)

lemma val_lsb_append: "val_lsb (xs @ ys) = val_lsb xs + 2 ^ length xs * val_lsb ys"
  by (induction xs) (simp_all add: algebra_simps)

lemma val_lsb_replicate_False [simp]: "val_lsb (replicate n False) = 0"
  by (induction n) simp_all

lemma bits_lsb_val_lsb: "length bs \<le> k \<Longrightarrow> bits_lsb k (val_lsb bs) = bs @ replicate (k - length bs) False"
proof (induction bs arbitrary: k)
  case Nil
  show ?case by (induction k) simp_all
next
  case (Cons b bs)
  then obtain k' where k: "k = Suc k'" by (cases k) auto
  with Cons show ?case by (simp add: of_bool_def)
qed

lemma length_bits_of_byte [simp]: "length (bits_of_byte x) = 8"
  by (simp add: bits_of_byte_def)

lemma length_bits_of_bytes [simp]: "length (bits_of_bytes xs) = 8 * length xs"
  by (induction xs) simp_all

lemma bits_of_byte_of_val:
  assumes "length bs \<le> 8"
  shows "bits_of_byte (of_nat (val_lsb bs)) = bs @ replicate (8 - length bs) False"
proof -
  have "val_lsb bs < 2 ^ length bs" by (rule val_lsb_less)
  also have "\<dots> \<le> 2 ^ 8" using assms by (intro power_increasing) simp_all
  finally have "val_lsb bs < 256" by simp
  then have "unat (of_nat (val_lsb bs) :: byte) = val_lsb bs"
    by (simp add: unat_of_nat)
  then show ?thesis using assms by (simp add: bits_of_byte_def bits_lsb_val_lsb)
qed


lemma padding_add_8 [simp]: "padding (n + 8) = padding n"
  by (simp add: padding_def)

lemma padding_small: "0 < n \<Longrightarrow> n \<le> 8 \<Longrightarrow> padding n = 8 - n"
  by (cases "n = 8") (simp_all add: padding_def)

lemma bits_of_bytes_of_bits:
  "bits_of_bytes (bytes_of_bits bs) = bs @ replicate (padding (length bs)) False"
proof (induction bs rule: bytes_of_bits.induct)
  case 1
  show ?case by (simp add: padding_def)
next
  case (2 b bs)
  let ?x = "of_nat (val_lsb (take 8 (b # bs))) :: byte"
  have unfold: "bits_of_bytes (bytes_of_bits (b # bs)) =
      bits_of_byte ?x @ bits_of_bytes (bytes_of_bits (drop 7 bs))"
    by (simp only: bytes_of_bits.simps bits_of_bytes_Cons)
  show ?case
  proof (cases "7 \<le> length bs")
    case True
    have "length (take 8 (b # bs)) = 8" using True by simp
    then have first: "bits_of_byte ?x = take 8 (b # bs)"
      using bits_of_byte_of_val [of "take 8 (b # bs)"] by simp
    have "length (b # bs) = length (drop 7 bs) + 8" using True by simp
    then have pad: "padding (length (b # bs)) = padding (length (drop 7 bs))"
      by (simp only: padding_add_8)
    have split: "take 8 (b # bs) @ drop 7 bs = b # bs" by simp
    have "bits_of_bytes (bytes_of_bits (b # bs)) =
        take 8 (b # bs) @ drop 7 bs @ replicate (padding (length (drop 7 bs))) False"
      by (simp only: unfold first "2.IH")
    also have "\<dots> = (take 8 (b # bs) @ drop 7 bs) @ replicate (padding (length (b # bs))) False"
      by (simp only: pad append_assoc)
    finally show ?thesis by (simp only: split)
  next
    case False
    then have short: "length (b # bs) \<le> 8" by simp
    have "take 8 (b # bs) = b # bs" using False by simp
    then have first: "bits_of_byte ?x = (b # bs) @ replicate (8 - length (b # bs)) False"
      using bits_of_byte_of_val [OF short] by simp
    have pad: "padding (length (b # bs)) = 8 - length (b # bs)"
      using short by (intro padding_small) simp_all
    have "drop 7 bs = []" using False by simp
    then have "bits_of_bytes (bytes_of_bits (drop 7 bs)) = []" by simp
    then show ?thesis by (simp only: unfold first pad append_Nil2)
  qed
qed

lemma length_bytes_of_bits: "8 * length (bytes_of_bits bs) = length bs + padding (length bs)"
proof -
  have "length (bits_of_bytes (bytes_of_bits bs)) = length bs + padding (length bs)"
    by (simp only: bits_of_bytes_of_bits length_append length_replicate)
  then show ?thesis by simp
qed

lemma padding_less: "padding n < 8"
  by (simp add: padding_def)

lemma BitReader_drop_padded:
  assumes "length pad < 8" and "8 * length chunk = n + length pad"
    and "length r = length pad + 8 * length rest"
  shows "BitReader_drop (chunk @ rest) r = rest"
proof -
  have "8 * length (chunk @ rest) - length r + 7 = (7 - length pad) + length chunk * 8"
    using assms by simp
  then have "(8 * length (chunk @ rest) - length r + 7) div 8 = length chunk"
    using assms(1) by simp
  then show ?thesis by (simp add: BitReader_drop_def)
qed

lemma BitReader_drop_padding:
  "BitReader_drop (bytes_of_bits bs @ rest)
     (replicate (padding (length bs)) False @ bits_of_bytes rest) = rest"
  by (rule BitReader_drop_padded [where pad = "replicate (padding (length bs)) False" and n = "length bs"])
    (simp_all add: padding_less length_bytes_of_bits)

section \<open>Elias codes\<close>

lemma bitlen_bounds: "0 < n \<Longrightarrow> 2 ^ (bitlen n - 1) \<le> n \<and> n < 2 ^ bitlen n"
proof (induction n rule: bitlen.induct)
  case (1 n)
  show ?case
  proof (cases "n div 2 = 0")
    case True
    with 1 have "n = 1" by (simp add: div_eq_0_iff) 
    then show ?thesis by (simp add: bitlen.simps [of "Suc 0"] bitlen.simps [of 0])
  next
    case False
    then have pos: "0 < n div 2" by simp
    with 1 have IH: "2 ^ (bitlen (n div 2) - 1) \<le> n div 2" "n div 2 < 2 ^ bitlen (n div 2)"
      by simp_all
    have bl: "bitlen n = Suc (bitlen (n div 2))" using 1(2) by (subst bitlen.simps) simp
    have "0 < bitlen (n div 2)" using pos by (subst bitlen.simps) simp
    then have "bitlen (n div 2) = Suc (bitlen (n div 2) - 1)" by simp
    then have "(2::nat) ^ bitlen (n div 2) = 2 * 2 ^ (bitlen (n div 2) - 1)"
      by (metis power_Suc)
    also have "\<dots> \<le> 2 * (n div 2)" using IH(1) by simp
    also have "\<dots> \<le> n" by simp
    finally have lo: "2 ^ bitlen (n div 2) \<le> n" .
    have hi: "n < 2 * 2 ^ bitlen (n div 2)" using IH(2) by linarith
    show ?thesis using lo hi bl by simp
  qed
qed

lemma bitlen_pos: "0 < n \<Longrightarrow> 0 < bitlen n"
  by (subst bitlen.simps) simp

lemma bitlen_le: "n < 2 ^ k \<Longrightarrow> bitlen n \<le> k"
proof (induction n arbitrary: k rule: bitlen.induct)
  case (1 n)
  show ?case
  proof (cases "n = 0")
    case True
    then show ?thesis by (simp add: bitlen.simps [of 0])
  next
    case False
    then obtain k' where k: "k = Suc k'" using 1(2) by (cases k) auto
    then have "n div 2 < 2 ^ k'" using 1(2) by simp
    with 1(1) False have "bitlen (n div 2) \<le> k'" by simp
    then show ?thesis using False k by (subst bitlen.simps) simp
  qed
qed

lemma bits_lsb_snoc: "bits_lsb (Suc k) v = bits_lsb k v @ [odd (v div 2 ^ k)]"
proof (induction k arbitrary: v)
  case 0
  show ?case by simp
next
  case (Suc k)
  have "v div 2 div 2 ^ k = v div (2 * 2 ^ k)" by (simp add: div_mult2_eq)
  then show ?case using Suc [of "v div 2"] by simp
qed

lemma bits_msb_Suc: "bits_msb (Suc k) v = odd (v div 2 ^ k) # bits_msb k v"
  by (simp only: bits_msb_def bits_lsb_snoc rev_append rev.simps append_Nil append_Cons)

lemma top_bit: 
  assumes "0 < n"
  shows "n div 2 ^ (bitlen n - 1) = 1"
proof -
  have b: "2 ^ (bitlen n - 1) \<le> n" "n < 2 ^ bitlen n" using bitlen_bounds [OF assms] by simp_all
  have "bitlen n = Suc (bitlen n - 1)" using bitlen_pos [OF assms] by simp
  then have "n < 2 * 2 ^ (bitlen n - 1)" using b(2) by (metis power_Suc)
  then have "n div 2 ^ (bitlen n - 1) < 2" by (simp add: less_mult_imp_div_less mult.commute)
  moreover have "0 < n div 2 ^ (bitlen n - 1)" using b(1) by (simp add: div_greater_zero_iff)
  ultimately show ?thesis by simp
qed

lemma bits_msb_bitlen:
  assumes "0 < n"
  shows "bits_msb (bitlen n) n = True # bits_msb (bitlen n - 1) n"
proof -
  have "bitlen n = Suc (bitlen n - 1)" using bitlen_pos [OF assms] by simp
  then have "bits_msb (bitlen n) n = odd (n div 2 ^ (bitlen n - 1)) # bits_msb (bitlen n - 1) n"
    using bits_msb_Suc [of "bitlen n - 1" n] by simp
  then show ?thesis using top_bit [OF assms] by simp
qed

lemma length_bits_msb [simp]: "length (bits_msb k v) = k"
  by (simp add: bits_msb_def)

lemma val_msb_bits_msb [simp]: "val_msb (bits_msb k v) = v mod 2 ^ k"
  by (simp add: val_msb_def bits_msb_def)

lemma takeWhile_zeros: "takeWhile Not (replicate k False @ True # xs) = replicate k False"
  by (induction k) simp_all

lemma dropWhile_zeros: "dropWhile Not (replicate k False @ True # xs) = True # xs"
  by (induction k) simp_all

lemma gamma_decode_gamma_bits:
  assumes "0 < n" and "n < 2 ^ 64"
  shows "gamma_decode (gamma_bits n @ rest) = Inr (n, rest)"
proof -
  let ?L = "bitlen n"
  let ?z = "replicate (?L - 1) False"
  let ?m = "bits_msb ?L n"
  have m: "?m = True # bits_msb (?L - 1) n" by (rule bits_msb_bitlen [OF assms(1)])
  have L: "?L \<le> 64" by (rule bitlen_le [OF assms(2)])
  have Lpos: "0 < ?L" by (rule bitlen_pos [OF assms(1)])
  have tw: "takeWhile Not (gamma_bits n @ rest) = ?z"
    by (simp add: gamma_bits_def m takeWhile_zeros)
  have dw: "dropWhile Not (gamma_bits n @ rest) = ?m @ rest"
    by (simp add: gamma_bits_def dropWhile_zeros m [symmetric]) (simp add: m dropWhile_zeros)
  have z1: "length ?z + 1 = ?L" using Lpos by simp
  have v: "val_msb (take ?L (?m @ rest)) = n"
    using bitlen_bounds [OF assms(1)] by simp
  have d: "drop ?L (?m @ rest) = rest" by simp
  have ne: "?m @ rest \<noteq> []" using m by simp
  have "\<not> 63 < length ?z" using L by simp
  moreover have "\<not> length (?m @ rest) < length ?z + 1" using Lpos by simp
  ultimately show ?thesis
    unfolding gamma_decode_def Let_def tw dw z1 using ne v d by simp
qed

lemma delta_decode_delta_bits:
  assumes "0 < n" and "n < 2 ^ 64"
  shows "delta_decode (delta_bits n @ rest) = Inr (n, rest)"
proof -
  let ?L = "bitlen n"
  have L: "?L \<le> 64" by (rule bitlen_le [OF assms(2)])
  have Lpos: "0 < ?L" by (rule bitlen_pos [OF assms(1)])
  have "?L < 2 ^ 64" using L by (simp add: order.strict_trans1)
  then have g: "gamma_decode (delta_bits n @ rest) = Inr (?L, bits_msb (?L - 1) n @ rest)"
    using gamma_decode_gamma_bits [OF Lpos, of "bits_msb (?L - 1) n @ rest"]
    by (simp add: delta_bits_def)
  have b: "2 ^ (?L - 1) \<le> n" "n < 2 ^ ?L" using bitlen_bounds [OF assms(1)] by simp_all
  have "?L = Suc (?L - 1)" using Lpos by simp
  then have "n < 2 * 2 ^ (?L - 1)" using b(2) by (metis power_Suc)
  then have "n mod 2 ^ (?L - 1) = n - 2 ^ (?L - 1)"
    using b(1) by (metis le_add_diff_inverse2 mod_add_self2 mod_less add_less_cancel_left mult_2 add.commute)
  then have v: "2 ^ (?L - 1) + n mod 2 ^ (?L - 1) = n" using b(1) by simp
  show ?thesis unfolding delta_decode_def g using L v by simp
qed

section \<open>Variable-length integers and zig-zag\<close>

lemma GammaCoder_Decode_gamma_bits:
  "v \<noteq> 0 \<Longrightarrow> GammaCoder_Decode (gamma_bits (unat v) @ rest) = Inr (v, rest)"
  for v :: u64
proof -
  assume "v \<noteq> 0"
  then have "0 < unat v" by (simp add: unat_gt_0)
  moreover have "unat v < 2 ^ 64" using unsigned_less [of v] by simp
  ultimately show ?thesis
    by (simp add: GammaCoder_Decode_def gamma_decode_gamma_bits)
qed

lemma DeltaCoder_Decode_delta_bits:
  "v \<noteq> 0 \<Longrightarrow> DeltaCoder_Decode (delta_bits (unat v) @ rest) = Inr (v, rest)"
  for v :: u64
proof -
  assume "v \<noteq> 0"
  then have "0 < unat v" by (simp add: unat_gt_0)
  moreover have "unat v < 2 ^ 64" using unsigned_less [of v] by simp
  ultimately show ?thesis
    by (simp add: DeltaCoder_Decode_def delta_decode_delta_bits)
qed

lemma low7: "unat (b AND 127) = unat b mod 128" for b :: byte
proof -
  have m: "(127::byte) = mask 7" by (simp add: mask_eq_exp_minus_1)
  show ?thesis
    unfolding m take_bit_eq_mask [symmetric] unsigned_take_bit_eq
    by (simp add: take_bit_eq_mod)
qed

lemma read_varuint_WriteVarUint:
  "read_varuint (WriteVarUint n @ rest) = Inr (n, rest)"
proof (induction n rule: WriteVarUint.induct)
  case (1 n)
  show ?case
  proof (cases "n < 128")
    case True
    then have u: "unat (of_nat n :: byte) = n" by (simp add: unat_of_nat)
    have "\<not> bit n 7" using True by (simp add: bit_iff_odd)
    then have "\<not> bit (of_nat n :: byte) 7" by (simp add: bit_of_nat_iff)
    then show ?thesis using True u by (subst WriteVarUint.simps) simp
  next
    case False
    let ?b = "of_nat (n mod 128 + 128) :: byte"
    have u: "unat ?b = n mod 128 + 128" by (rule of_nat_inverse [OF refl]) simp
    have "(n mod 128 + 128) div 128 = 1" by simp
    then have "bit (n mod 128 + 128) 7" by (simp add: bit_iff_odd)
    then have hi: "bit ?b 7" by (simp add: bit_of_nat_iff del: of_nat_add)
    have lo: "unat (?b AND 127) = n mod 128"
      by (simp only: low7 u) simp
    have "n mod 128 + 128 * (n div 128) = n" by simp
    then show ?thesis using False 1 hi lo by (subst WriteVarUint.simps) simp
  qed
qed

lemma sign_fill: "signed_drop_bit 31 x = (if bit x 31 then - 1 else 0)" for x :: u32
proof (rule bit_eqI)
  fix n assume "possible_bit TYPE(u32) n"
  then have n: "n < 32" by simp
  show "bit (signed_drop_bit 31 x) n = bit (if bit x 31 then - 1 else 0 :: u32) n"
    using n by (cases "n = 0") (auto simp add: bit_simps)
qed

lemma bit_double_u32: "bit (x * 2) n \<longleftrightarrow> 0 < n \<and> n < 32 \<and> bit x (n - 1)" for x :: u32
  using bit_push_bit_iff [of 1 x n] by auto

lemma ZigZag_inverse: "ZigZagDecode (ZigZagEncode x) = x"
proof (cases "bit x 31")
  case False
  have e: "ZigZagEncode x = x * 2" using False by (simp add: ZigZagEncode_def sign_fill)
  have "x * 2 AND 1 = 0" by (rule bit_eqI) (auto simp add: bit_simps bit_double_u32)
  moreover have "drop_bit 1 (x * 2) = x"
  proof (rule bit_eqI)
    fix n assume "possible_bit TYPE(u32) n"
    then have "n < 32" by simp
    then show "bit (drop_bit 1 (x * 2)) n = bit x n"
      using False by (cases "n = 31") (auto simp add: bit_simps bit_double_u32)
  qed
  ultimately show ?thesis by (simp add: ZigZagDecode_def e)
next
  case True
  have e: "ZigZagEncode x = NOT (x * 2)" using True by (simp add: ZigZagEncode_def sign_fill)
  have "NOT (x * 2) AND 1 = 1" by (rule bit_eqI) (auto simp add: bit_simps bit_double_u32)
  moreover have "NOT (drop_bit 1 (NOT (x * 2))) = x"
  proof (rule bit_eqI)
    fix n assume "possible_bit TYPE(u32) n"
    then have "n < 32" by simp
    then show "bit (NOT (drop_bit 1 (NOT (x * 2)))) n = bit x n"
      using True by (cases "n = 31") (auto simp add: bit_simps bit_double_u32)
  qed
  ultimately show ?thesis by (simp add: ZigZagDecode_def e)
qed

lemma ZigZagEncode_max: "ZigZagEncode x = - 1 \<longleftrightarrow> x = 0x80000000"
proof
  assume "ZigZagEncode x = - 1"
  then have "x = ZigZagDecode (- 1)" using ZigZag_inverse [of x] by simp
  also have "\<dots> = 0x80000000"
    by (simp add: ZigZagDecode_def not_eq_complement mask_eq_exp_minus_1)
  finally show "x = 0x80000000" .
next
  assume "x = 0x80000000"
  then show "ZigZagEncode x = - 1" by (simp add: ZigZagEncode_def sign_fill)
qed

section \<open>Version bytes\<close>

text \<open>
  C6. A keys blob whose first byte is not 0, and a values blob whose inflated stream
  starts with a byte that is not 0, are refused with \<open>UnsupportedVersion\<close>, in every
  build and whatever follows the version byte: no vector is decoded.
\<close>

theorem version_rejected:
  "v \<noteq> 0 \<Longrightarrow>
     DeserializeTrafficKeys debug (v # rest) = Inl UnsupportedVersion \<and>
     (inflate data = Inr (v # rest) \<longrightarrow>
        DeserializeTrafficValues debug inflate data = Inl UnsupportedVersion)"
  by (simp add: DeserializeTrafficKeys_def DeserializeTrafficValues_def ReadByte_def
      kLatestKeysVersion_def kLatestValuesVersion_def)

theorem version_rejected_witness:
  "(1 :: byte) \<noteq> 0 \<and> DeserializeTrafficKeys True [1, 0] = Inl UnsupportedVersion \<and>
   DeserializeTrafficValues True Inr [1, 0] = Inl UnsupportedVersion"
  using version_rejected [of 1 True "[0]" Inr "[1, 0]"] by simp

section \<open>Trailing bytes\<close>

text \<open>In a debug build the \<open>ASSERT_EQUAL(src.Size(), 0, ())\<close> of both decoders stops on
  a byte left after the payload.\<close>

lemma trailing_bytes_debug:
  "DeserializeTrafficKeys True [0, 0, 255] = Inl AssertFailed \<and>
   DeserializeTrafficValues True Inr [0, 0, 255] = Inl AssertFailed"
  by (simp add: DeserializeTrafficKeys_def DeserializeTrafficValues_def ReadByte_def
      kLatestKeysVersion_def kLatestValuesVersion_def ReadVarUint_def BitReader_open_def
      BitReader_drop_def bits_of_byte_def bits_lsb_numeral)

text \<open>
  C7. Surplus bytes after the payload are to be refused. The only check is the
  \<open>ASSERT_EQUAL(src.Size(), 0, ())\<close>, which a release build does not contain: there the
  blob \<open>00 00 FF\<close> (version 0, count 0, one trailing byte) is accepted by both decoders,
  which return the empty vector.
\<close>

theorem trailing_bytes_release:
  "DeserializeTrafficKeys False [0, 0, 255] = Inr [] \<and>
   DeserializeTrafficValues False Inr [0, 0, 255] = Inr []"
  by (simp add: DeserializeTrafficKeys_def DeserializeTrafficValues_def ReadByte_def
      kLatestKeysVersion_def kLatestValuesVersion_def ReadVarUint_def)

section \<open>Inconsistent key groups\<close>

lemma group_keys_Inl:
  "group_keys keys = Inl e \<longleftrightarrow> e = InconsistentKeys \<and> list_ex bad_group (fid_groups keys)"
proof (induction keys rule: group_keys.induct)
  case 1
  show ?case by simp
next
  case (2 k ks)
  let ?g = "k # takeWhile (\<lambda>x. m_fid k = m_fid x) ks"
  let ?rest = "dropWhile (\<lambda>x. m_fid k = m_fid x) ks"
  have groups: "list_ex bad_group (fid_groups (k # ks)) \<longleftrightarrow>
      bad_group ?g \<or> list_ex bad_group (fid_groups ?rest)"
    by simp
  show ?case
  proof (cases "bad_group ?g")
    case True
    then have "group_keys (k # ks) = Inl InconsistentKeys"
      by (auto simp add: bad_group_def Let_def)
    then show ?thesis using True groups by auto
  next
    case False
    then have ok: "\<not> Suc (length (takeWhile (\<lambda>x. m_fid k = m_fid x) ks)) mod
        (if \<not> list_ex (\<lambda>x. m_dir x = kReverseDirection) ?g then 1 else 2) \<noteq> 0"
      by (auto simp add: bad_group_def)
    then have step: "group_keys (k # ks) = Inl e \<longleftrightarrow> group_keys ?rest = Inl e"
      by (simp add: Let_def split: sum.splits prod.splits)
    show ?thesis
      unfolding step groups using False "2.IH" [OF refl refl refl ok] by simp
  qed
qed

lemma encode_fids_Inl: "encode_fids debug p fids w = Inl e \<Longrightarrow> e = AssertFailed"
  by (induction fids arbitrary: p w) (auto simp add: Let_def split: if_splits)

lemma encode_numSegs_Inl: "encode_numSegs debug ss w = Inl e \<Longrightarrow> e = AssertFailed"
  by (induction ss arbitrary: w) (auto simp add: Let_def split: if_splits)

lemma encode_fids_release: "\<exists>w'. encode_fids False prevFid fids w = Inr w'"
  by (induction fids arbitrary: prevFid w) (simp_all add: Let_def)

lemma encode_numSegs_release: "\<exists>w'. encode_numSegs False ss w = Inr w'"
  by (induction ss arbitrary: w) (simp_all add: Let_def)

lemma group_keys_Inr:
  "\<not> list_ex bad_group (fid_groups keys) \<Longrightarrow> \<exists>fids numSegs oneWay. group_keys keys = Inr (fids, numSegs, oneWay)"
  using group_keys_Inl [of keys] by (cases "group_keys keys") auto

lemma serialize_keys_release:
  assumes "\<not> list_ex bad_group (fid_groups keys)"
  shows "\<exists>frame. SerializeTrafficKeys False keys = Inr frame"
proof -
  obtain fids numSegs oneWay where gk: "group_keys keys = Inr (fids, numSegs, oneWay)"
    using group_keys_Inr [OF assms] by blast
  obtain w1 where w1: "encode_fids False 0 fids [] = Inr w1"
    using encode_fids_release by blast
  obtain w2 where w2: "encode_numSegs False numSegs w1 = Inr w2"
    using encode_numSegs_release by blast
  show ?thesis by (simp add: SerializeTrafficKeys_def gk Let_def w1 w2)
qed

lemma serialize_keys_debug:
  assumes "\<not> list_ex bad_group (fid_groups keys)"
  shows "SerializeTrafficKeys True keys = Inl AssertFailed \<or>
         (\<exists>frame. SerializeTrafficKeys True keys = Inr frame)"
proof (cases "SerializeTrafficKeys True keys")
  case (Inl e)
  then have "group_keys keys \<noteq> Inl e" using group_keys_Inl [of keys e] assms by auto
  then have "e = AssertFailed"
    using Inl
    by (auto simp add: SerializeTrafficKeys_def Let_def split: sum.splits prod.splits
        dest: encode_fids_Inl encode_numSegs_Inl)
  then show ?thesis using Inl by simp
next
  case (Inr frame)
  then show ?thesis by simp
qed

text \<open>
  C8 (as amended). \<open>SerializeTrafficKeys\<close> stops with \<open>InconsistentKeys\<close> exactly when
  some fid-group contains a \<open>dir = 1\<close> entry and has an odd number of entries: the
  only check is \<open>CHECK_EQUAL(numSegsForThisFid % numDirs, 0, ())\<close>. For every other
  key vector a release build emits a frame, and a debug build emits a frame or stops at
  the \<open>ASSERT(ok, ())\<close> that follows an \<open>Encode\<close>.
\<close>

theorem inconsistent_keys_iff:
  "(SerializeTrafficKeys debug keys = Inl InconsistentKeys \<longleftrightarrow>
      list_ex (\<lambda>g. list_ex (\<lambda>k. m_dir k = kReverseDirection) g \<and> odd (length g))
        (fid_groups keys)) \<and>
   (\<not> list_ex (\<lambda>g. list_ex (\<lambda>k. m_dir k = kReverseDirection) g \<and> odd (length g))
        (fid_groups keys) \<longrightarrow>
      (\<exists>frame. SerializeTrafficKeys False keys = Inr frame) \<and>
      (SerializeTrafficKeys True keys = Inl AssertFailed \<or>
       (\<exists>frame. SerializeTrafficKeys True keys = Inr frame)))"
proof -
  have bad: "list_ex (\<lambda>g. list_ex (\<lambda>k. m_dir k = kReverseDirection) g \<and> odd (length g))
      (fid_groups keys) = list_ex bad_group (fid_groups keys)"
    by (simp add: bad_group_def [abs_def])
  have "SerializeTrafficKeys debug keys = Inl InconsistentKeys \<longleftrightarrow>
      group_keys keys = Inl InconsistentKeys"
    by (auto simp add: SerializeTrafficKeys_def Let_def split: sum.splits prod.splits
        dest: encode_fids_Inl encode_numSegs_Inl)
  then show ?thesis
    unfolding bad using serialize_keys_release [of keys] serialize_keys_debug [of keys]
    by (simp add: group_keys_Inl)
qed

theorem inconsistent_keys_witness:
  "SerializeTrafficKeys True
     [\<lparr>m_fid = 1, m_idx = 0, m_dir = 0\<rparr>, \<lparr>m_fid = 1, m_idx = 0, m_dir = 1\<rparr>,
      \<lparr>m_fid = 1, m_idx = 1, m_dir = 0\<rparr>] = Inl InconsistentKeys \<and>
   (\<exists>frame. SerializeTrafficKeys False
      [\<lparr>m_fid = 1, m_idx = 0, m_dir = 1\<rparr>, \<lparr>m_fid = 1, m_idx = 1, m_dir = 1\<rparr>] = Inr frame)"
  using inconsistent_keys_iff [of True
     "[\<lparr>m_fid = 1, m_idx = 0, m_dir = 0\<rparr>, \<lparr>m_fid = 1, m_idx = 0, m_dir = 1\<rparr>,
      \<lparr>m_fid = 1, m_idx = 1, m_dir = 0\<rparr>]"]
    inconsistent_keys_iff [of True
     "[\<lparr>m_fid = 1, m_idx = 0, m_dir = 1\<rparr>, \<lparr>m_fid = 1, m_idx = 1, m_dir = 1\<rparr>]"]
  by (simp add: kReverseDirection_def)

text \<open>
  C8 as stated fails: a group with a \<open>dir = 1\<close> entry, two entries and two distinct
  segment indices (2 is not twice 2), and a forward-only group with two entries and one
  distinct index, are both serialized into a frame.
\<close>

theorem inconsistent_keys_counterexample:
  "length [\<lparr>m_fid = 1, m_idx = 0, m_dir = 1\<rparr>, \<lparr>m_fid = 1, m_idx = 1, m_dir = 1\<rparr>] \<noteq>
     2 * card (m_idx ` set [\<lparr>m_fid = 1, m_idx = 0, m_dir = 1\<rparr>, \<lparr>m_fid = 1, m_idx = 1, m_dir = 1\<rparr>]) \<and>
   SerializeTrafficKeys True
     [\<lparr>m_fid = 1, m_idx = 0, m_dir = 1\<rparr>, \<lparr>m_fid = 1, m_idx = 1, m_dir = 1\<rparr>] = Inr [0, 1, 18] \<and>
   length [\<lparr>m_fid = 1, m_idx = 0, m_dir = 0\<rparr>, \<lparr>m_fid = 1, m_idx = 0, m_dir = 0\<rparr>] \<noteq>
     card (m_idx ` set [\<lparr>m_fid = 1, m_idx = 0, m_dir = 0\<rparr>, \<lparr>m_fid = 1, m_idx = 0, m_dir = 0\<rparr>]) \<and>
   SerializeTrafficKeys True
     [\<lparr>m_fid = 1, m_idx = 0, m_dir = 0\<rparr>, \<lparr>m_fid = 1, m_idx = 0, m_dir = 0\<rparr>] = Inr [0, 1, 114]"
  by (simp add: SerializeTrafficKeys_def kReverseDirection_def kLatestKeysVersion_def
      WriteVarUint.simps GammaCoder_Encode_def gamma_bits_def bitlen.simps bits_msb_def
      BitWriter_drop_def BitWriter_Write_def Let_def bits_lsb_numeral)

section \<open>Routing header\<close>

lemma le_word_2: "le_word [ucast w, ucast (drop_bit 8 w)] = w" for w :: u16
  by (rule bit_eqI) (auto simp add: bit_simps)

lemma le_word_4:
  "le_word [ucast w, ucast (drop_bit 8 w), ucast (drop_bit 16 w), ucast (drop_bit 24 w)] = w"
  for w :: u32
proof (rule bit_eqI)
  fix n assume "possible_bit TYPE(u32) n"
  then have "n < 32" by simp
  then consider "n < 8" | "8 \<le> n" "n < 16" | "16 \<le> n" "n < 24" | "24 \<le> n" "n < 32"
    by linarith
  then show "bit (le_word [ucast w, ucast (drop_bit 8 w), ucast (drop_bit 16 w),
      ucast (drop_bit 24 w)] :: u32) n = bit w n"
    by cases (auto simp add: bit_simps)
qed

lemma le_bytes_2: "le_bytes 2 w = [ucast w, ucast (drop_bit 8 w)]"
  by (simp add: le_bytes_def upt_conv_Cons)

lemma le_bytes_4:
  "le_bytes 4 w = [ucast w, ucast (drop_bit 8 w), ucast (drop_bit 16 w), ucast (drop_bit 24 w)]"
  by (simp add: le_bytes_def upt_conv_Cons)

lemma RoutingHeader_Serialize_bytes:
  "RoutingHeader_Serialize h sink =
     sink @
     [ucast (m_version h), ucast (drop_bit 8 (m_version h)),
      ucast (m_reserved h), ucast (drop_bit 8 (m_reserved h)),
      ucast (m_noRestrictionCount h), ucast (drop_bit 8 (m_noRestrictionCount h)),
      ucast (drop_bit 16 (m_noRestrictionCount h)), ucast (drop_bit 24 (m_noRestrictionCount h)),
      ucast (m_onlyRestrictionCount h), ucast (drop_bit 8 (m_onlyRestrictionCount h)),
      ucast (drop_bit 16 (m_onlyRestrictionCount h)),
      ucast (drop_bit 24 (m_onlyRestrictionCount h))]"
  by (simp add: RoutingHeader_Serialize_def WriteToSink_def le_bytes_2 le_bytes_4)

lemma read_u16:
  "(ReadPrimitiveFromSource (b0 # b1 # rest) :: error + (u16 \<times> byte list)) = Inr (le_word [b0, b1], rest)"
  by (simp add: ReadPrimitiveFromSource_def)

lemma read_u32:
  "(ReadPrimitiveFromSource (b0 # b1 # b2 # b3 # rest) :: error + (u32 \<times> byte list)) =
     Inr (le_word [b0, b1, b2, b3], rest)"
  by (simp add: ReadPrimitiveFromSource_def)

text \<open>
  C5. \<open>RoutingHeader::Serialize\<close> appends exactly 12 bytes to the sink: version,
  reserved, No count, Only count, each least significant byte first; and
  \<open>RoutingHeader::Deserialize\<close> reads the four fields back from these bytes, leaving
  the rest of the source.
\<close>

theorem header_layout:
  fixes h :: RoutingHeader
  shows "RoutingHeader_Serialize h sink =
     sink @
     [ucast (m_version h), ucast (drop_bit 8 (m_version h)),
      ucast (m_reserved h), ucast (drop_bit 8 (m_reserved h)),
      ucast (m_noRestrictionCount h), ucast (drop_bit 8 (m_noRestrictionCount h)),
      ucast (drop_bit 16 (m_noRestrictionCount h)), ucast (drop_bit 24 (m_noRestrictionCount h)),
      ucast (m_onlyRestrictionCount h), ucast (drop_bit 8 (m_onlyRestrictionCount h)),
      ucast (drop_bit 16 (m_onlyRestrictionCount h)),
      ucast (drop_bit 24 (m_onlyRestrictionCount h))] \<and>
   length (RoutingHeader_Serialize h sink) = length sink + 12 \<and>
   RoutingHeader_Deserialize (RoutingHeader_Serialize h [] @ rest) = Inr (h, rest)"
proof -
  have "RoutingHeader_Deserialize (RoutingHeader_Serialize h [] @ rest) = Inr (h, rest)"
    unfolding RoutingHeader_Serialize_bytes
    by (simp only: RoutingHeader_Deserialize_def append_Nil append_Cons read_u16 read_u32
        le_word_2 le_word_4 sum.case prod.case) simp
  then show ?thesis by (simp add: RoutingHeader_Serialize_bytes)
qed

section \<open>Corrupt restrictions\<close>

lemma DeserializeSingleType_numeral:
  "DeserializeSingleType type (numeral k) p rs src =
     DeserializeSingleType type (Suc (pred_numeral k)) p rs src"
  by (simp add: numeral_eq_Suc)

lemma decode_links_numeral:
  "decode_links (numeral k) p bits = decode_links (Suc (pred_numeral k)) p bits"
  by (simp add: numeral_eq_Suc)

text \<open>
  C4. A decoded biased link count of 0, or biased delta of 0, must make the top-level
  deserialization fail. \<open>DeserializeSingleType\<close> logs and returns \<open>false\<close>, but
  \<open>Deserialize\<close> is \<open>void\<close> and drops that result: it returns normally. The bytes
  \<open>20 04 00 00 00 00\<close> are the delta code of \<open>2^32\<close>, which narrows to a biased link
  count of 0; the bytes \<open>41 08 00 00 00 00\<close> are the code of 1 (two links) followed by
  the code of \<open>2^32\<close>, a biased delta of 0.
\<close>

theorem corruption_not_reported:
  "DeserializeSingleType No 1 0 [] [0x20, 4, 0, 0, 0, 0] = Inr (False, [], []) \<and>
   Deserialize \<lparr>m_version = 0, m_reserved = 0, m_noRestrictionCount = 1,
       m_onlyRestrictionCount = 0\<rparr> [] [0x20, 4, 0, 0, 0, 0] = Inr ([], []) \<and>
   DeserializeSingleType No 1 0 [] [0x41, 8, 0, 0, 0, 0] = Inr (False, [], []) \<and>
   Deserialize \<lparr>m_version = 0, m_reserved = 0, m_noRestrictionCount = 1,
       m_onlyRestrictionCount = 0\<rparr> [] [0x41, 8, 0, 0, 0, 0] = Inr ([], [])"
  by (simp add: Deserialize_def DeltaCoder_Decode_def delta_decode_def gamma_decode_def
      BitReader_open_def bits_of_byte_def val_msb_def BitReader_drop_def bits_lsb_numeral
      decode_links_numeral)

section \<open>Coloring\<close>

lemma combine_loop_fst:
  "fst (combine_loop M keys (res, c)) =
     (\<lambda>k. if k \<in> set keys then Some (case M k of None \<Rightarrow> Unknown | Some v \<Rightarrow> v) else res k)"
proof (induction keys arbitrary: res c)
  case Nil
  show ?case by simp
next
  case (Cons key keys)
  show ?case by (cases "M key") (auto simp add: Cons fun_eq_iff)
qed

lemma CombineColorings_result:
  assumes "CombineColorings debug keys M = Inr result"
  shows "dom result = set keys"
    and "k \<in> set keys \<Longrightarrow> result k = Some (case M k of None \<Rightarrow> Unknown | Some v \<Rightarrow> v)"
  using assms
  by (auto simp add: CombineColorings_def Let_def combine_loop_fst dom_def split: if_splits)

lemma CombineColorings_release: "\<exists>result. CombineColorings False keys M = Inr result"
  by (simp add: CombineColorings_def Let_def)

lemma combine_loop_snd:
  "snd (combine_loop M keys (res, c)) = c - of_nat (length (filter (\<lambda>k. k \<in> dom M) keys))"
proof (induction keys arbitrary: res c)
  case Nil
  show ?case by simp
next
  case (Cons key keys)
  show ?case by (cases "M key") (auto simp add: Cons dom_def)
qed

lemma RoadSegmentId_finite: "finite (UNIV :: RoadSegmentId set)"
proof -
  have "inj (\<lambda>k :: RoadSegmentId. (m_fid k, m_idx k, m_dir k))"
    by (rule injI) simp
  then show ?thesis by (rule finite_imageD [rotated]) simp
qed

lemma RoadSegmentId_card: "card (UNIV :: RoadSegmentId set) \<le> 2 ^ 56"
proof -
  let ?f = "\<lambda>k :: RoadSegmentId. (m_fid k, m_idx k, m_dir k)"
  have "inj ?f" by (rule injI) simp
  then have "card (UNIV :: RoadSegmentId set) = card (range ?f)" by (simp add: card_image)
  also have "\<dots> \<le> card (UNIV :: (u32 \<times> u16 \<times> byte) set)" by (rule card_mono) simp_all
  also have "\<dots> = 2 ^ 56" by (simp add: card_cartesian_product card_word flip: UNIV_Times_UNIV)
  finally show ?thesis .
qed

text \<open>In a debug build, and when no key is repeated, the assertion fails exactly when
  a key of the known map is missing from the key list.\<close>

lemma unexpected_key_debug:
  assumes "distinct keys"
  shows "CombineColorings True keys M = Inl AssertFailed \<longleftrightarrow> \<not> dom M \<subseteq> set keys"
proof -
  let ?A = "dom M" and ?B = "set keys \<inter> dom M"
  have fin: "finite ?A" by (rule finite_subset [OF subset_UNIV RoadSegmentId_finite])
  have "distinct (filter (\<lambda>k. k \<in> dom M) keys)" using assms by simp
  then have "length (filter (\<lambda>k. k \<in> dom M) keys) = card (set (filter (\<lambda>k. k \<in> dom M) keys))"
    by (rule distinct_card [symmetric])
  also have "set (filter (\<lambda>k. k \<in> dom M) keys) = ?B" by auto
  finally have hits: "length (filter (\<lambda>k. k \<in> dom M) keys) = card ?B" .
  have le: "card ?B \<le> card ?A" by (rule card_mono [OF fin]) simp
  have "card (?A - ?B) = card ?A - card ?B" by (rule card_Diff_subset) (use fin in auto)
  then have "(of_nat (card ?A) :: u64) - of_nat (card ?B) = of_nat (card (?A - ?B))"
    using le by (simp add: of_nat_diff)
  then have cnt: "snd (combine_loop M keys (Map.empty, of_nat (card ?A))) = of_nat (card (?A - ?B))"
    by (simp add: combine_loop_snd hits)
  have "card (?A - ?B) \<le> card (UNIV :: RoadSegmentId set)"
    by (rule card_mono [OF RoadSegmentId_finite]) simp
  then have small: "card (?A - ?B) < 2 ^ 64" using RoadSegmentId_card by simp
  have "(of_nat (card (?A - ?B)) :: u64) = 0 \<longleftrightarrow> card (?A - ?B) = 0"
  proof
    assume "(of_nat (card (?A - ?B)) :: u64) = 0"
    then have "unat (of_nat (card (?A - ?B)) :: u64) = 0" by simp
    moreover have "unat (of_nat (card (?A - ?B)) :: u64) = card (?A - ?B)"
      by (rule of_nat_inverse [OF refl]) (use small in simp)
    ultimately show "card (?A - ?B) = 0" by simp
  qed simp
  also have "\<dots> \<longleftrightarrow> ?A \<subseteq> set keys" using fin by auto
  finally show ?thesis by (simp add: CombineColorings_def Let_def cnt)
qed

text \<open>
  C9. The result has the domain and the values the claim states
  (\<open>CombineColorings_result\<close>), but a key of the known map that is missing from the key
  list is only caught by \<open>ASSERT_EQUAL(numUnexpectedKeys, 0, ())\<close>: a release build
  never reports it (second conjunct), and a debug build misses it when the key list
  repeats a key, since each repetition decrements the counter again (first conjunct).
\<close>

theorem unexpected_key_not_reported:
  "CombineColorings True
     [\<lparr>m_fid = 1, m_idx = 0, m_dir = 0\<rparr>, \<lparr>m_fid = 1, m_idx = 0, m_dir = 0\<rparr>]
     [\<lparr>m_fid = 1, m_idx = 0, m_dir = 0\<rparr> \<mapsto> 1, \<lparr>m_fid = 2, m_idx = 0, m_dir = 0\<rparr> \<mapsto> 2] =
     Inr [\<lparr>m_fid = 1, m_idx = 0, m_dir = 0\<rparr> \<mapsto> 1] \<and>
   CombineColorings False [] [\<lparr>m_fid = 2, m_idx = 0, m_dir = 0\<rparr> \<mapsto> 2] = Inr Map.empty"
  by (simp add: CombineColorings_def Let_def)

section \<open>Traffic values round trip\<close>

lemma write_values_bits: "write_values vs w = w @ values_bits vs"
  by (induction vs arbitrary: w) (simp_all add: values_bits_def BitWriter_Write_def)

lemma BitReader_Read_bits_lsb:
  "v < 2 ^ k \<Longrightarrow> BitReader_Read (bits_lsb k v @ r) k = Inr (v, r)"
  by (simp add: BitReader_Read_def)

lemma read_values_bits:
  "\<forall>v\<in>set vs. v < 8 \<Longrightarrow> read_values (length vs) (values_bits vs @ r) = Inr (vs, r)"
proof (induction vs)
  case Nil
  show ?case by (simp add: values_bits_def)
next
  case (Cons v vs)
  then have "v < 8" by simp
  then have "unat v < 2 ^ 3" by (simp add: word_less_nat_alt)
  then have "BitReader_Read (bits_lsb 3 (unat v) @ values_bits vs @ r) 3 =
      Inr (unat v, values_bits vs @ r)"
    by (rule BitReader_Read_bits_lsb)
  then show ?case using Cons by (simp add: values_bits_def)
qed

lemma ReadVarUint_WriteVarUint:
  "(ReadVarUint (WriteVarUint n @ rest) :: error + ('a::len word \<times> byte list)) =
     Inr (of_nat n, rest)"
  by (simp add: ReadVarUint_def read_varuint_WriteVarUint)

lemma BitReader_drop_all: 
  "BitReader_drop (bytes_of_bits bs) (replicate (padding (length bs)) False) = []"
  using BitReader_drop_padding [of bs "[]"] by simp

lemma values_buffer:
  "SerializeTrafficValues deflate V =
     deflate (0 # WriteVarUint (length V) @ bytes_of_bits (values_bits V))"
  by (simp add: SerializeTrafficValues_def Let_def BitWriter_drop_def write_values_bits
      kLatestValuesVersion_def)

text \<open>
  C3 (as amended). For every vector of speed groups in the range \<open>[0, 7]\<close> with fewer
  than \<open>2^32\<close> values, and every lossless \<open>deflate\<close>/\<open>inflate\<close> pair,
  \<open>DeserializeTrafficValues\<close> returns the vector that \<open>SerializeTrafficValues\<close> was
  given, in every build. The buffer that is deflated is the version byte 0, the varint
  count, the 3-bit values and zero padding (\<open>values_buffer\<close>).
\<close>

theorem values_roundtrip:
  assumes range: "\<forall>v\<in>set V. v < 8"
    and count: "length V < 2 ^ 32"
    and zlib: "\<forall>buf. inflate (deflate buf) = Inr buf"
  shows "DeserializeTrafficValues debug inflate (SerializeTrafficValues deflate V) = Inr V"
proof -
  let ?payload = "bytes_of_bits (values_bits V)"
  have n: "unat (of_nat (length V) :: u32) = length V"
    using count by (simp add: unat_of_nat)
  have bits: "BitReader_open ?payload =
      values_bits V @ replicate (padding (length (values_bits V))) False"
    by (simp add: BitReader_open_def bits_of_bytes_of_bits)
  have rd: "read_values (length V) (BitReader_open ?payload) =
      Inr (V, replicate (padding (length (values_bits V))) False)"
    unfolding bits by (rule read_values_bits [OF range])
  show ?thesis
    by (simp add: values_buffer zlib DeserializeTrafficValues_def ReadByte_def
        kLatestValuesVersion_def ReadVarUint_WriteVarUint n rd BitReader_drop_all)
qed

theorem values_roundtrip_witness:
  "DeserializeTrafficValues True Inr (SerializeTrafficValues id [0, 3, 7, 0, 1]) =
     Inr [0, 3, 7, 0, 1]"
  using values_roundtrip [of "[0, 3, 7, 0, 1]" Inr id True] by simp

text \<open>
  The count is written from a \<open>size_t\<close> and read back by \<open>ReadVarUint<uint32_t>\<close>: a
  vector of \<open>2^32\<close> values comes back with its count narrowed to 0.
\<close>

lemma values_count_narrowed:
  assumes "length V = 2 ^ 32"
  shows "DeserializeTrafficValues debug Inr (SerializeTrafficValues id V) \<noteq> Inr V"
proof -
  have "V \<noteq> []" using assms by auto
  moreover have "unat (of_nat (length V) :: u32) = 0"
    using assms by (simp add: unat_of_nat)
  ultimately show ?thesis
    by (simp add: values_buffer DeserializeTrafficValues_def ReadByte_def
        kLatestValuesVersion_def ReadVarUint_WriteVarUint)
qed

text \<open>
  C3 as stated fails for a vector of \<open>2^32\<close> values (with the identity as the
  compression layer), in a debug and in a release build.
\<close>

theorem values_roundtrip_counterexample:
  "DeserializeTrafficValues True Inr (SerializeTrafficValues id (replicate 4294967296 0)) \<noteq>
     Inr (replicate 4294967296 0) \<and>
   DeserializeTrafficValues False Inr (SerializeTrafficValues id (replicate 4294967296 0)) \<noteq>
     Inr (replicate 4294967296 0)"
  using values_count_narrowed [of "replicate 4294967296 0"] by simp

section \<open>Traffic keys round trip\<close>

lemma unat_ucast_u32_u64: "unat (ucast x :: u64) = unat x" for x :: u32
proof -
  have "unat x < 2 ^ 32" using unsigned_less [of x] by simp
  then have "unat x < 2 ^ 64" by simp
  then show ?thesis by (simp add: unsigned_ucast_eq take_bit_nat_eq_self)
qed

lemma ucast_u32_u64_eq_0: "(ucast x :: u64) = 0 \<longleftrightarrow> x = 0" for x :: u32
  using unat_ucast_u32_u64 [of x] by (metis unat_0_iff)

lemma ucast_pred_u64_u32:
  fixes x :: u32
  assumes "x \<noteq> 0"
  shows "(ucast ((ucast x :: u64) - 1) :: u32) = x - 1"
proof -
  have v: "(ucast x :: u64) \<noteq> 0" using assms by (simp add: ucast_u32_u64_eq_0)
  have "unat ((ucast x :: u64) - 1) = unat x - 1"
    using unat_minus_one [OF v] by (simp add: unat_ucast_u32_u64)
  also have "\<dots> = unat (x - 1)" using unat_minus_one [OF assms] by simp
  finally have "(of_nat (unat ((ucast x :: u64) - 1)) :: u32) = of_nat (unat (x - 1))" by simp
  then show ?thesis by simp
qed

lemma encode_fids_bits:
  "fids_encodable prevFid fids \<Longrightarrow>
     encode_fids debug prevFid fids w = Inr (w @ fids_bits prevFid fids)"
  by (induction fids arbitrary: prevFid w)
    (simp_all add: Let_def GammaCoder_Encode_def ucast_u32_u64_eq_0)

lemma decode_fids_bits:
  "fids_encodable prevFid fids \<Longrightarrow>
     decode_fids (length fids) prevFid (fids_bits prevFid fids @ r) = Inr (fids, r)"
proof (induction fids arbitrary: prevFid)
  case Nil
  show ?case by simp
next
  case (Cons fid fids)
  let ?d = "fid - prevFid + 1"
  have d: "?d \<noteq> 0" and rest: "fids_encodable fid fids" using Cons.prems by simp_all
  have v: "(ucast ?d :: u64) \<noteq> 0" using d by (simp add: ucast_u32_u64_eq_0)
  have dec: "GammaCoder_Decode (gamma_bits (unat (ucast ?d :: u64)) @ fids_bits fid fids @ r) =
      Inr (ucast ?d, fids_bits fid fids @ r)"
    by (rule GammaCoder_Decode_gamma_bits [OF v])
  have undo: "prevFid + ucast ((ucast ?d :: u64) - 1) = fid"
    by (simp add: ucast_pred_u64_u32 [OF d])
  show ?case using Cons.IH [OF rest] by (simp add: dec undo)
qed

lemma numSeg_code:
  assumes "s + 1 < 2 ^ 64" and "v = (of_nat (s + 1) :: u64)"
  shows "v \<noteq> 0" and "unat (v - 1) = s"
proof -
  have u: "unat v = s + 1" unfolding assms(2) by (rule of_nat_inverse [OF refl]) (use assms(1) in simp)
  then show "v \<noteq> 0" by (metis unat_0_iff add_is_0 zero_neq_one)
  then show "unat (v - 1) = s" using unat_minus_one [of v] u by simp
qed

lemma encode_numSegs_bits:
  "\<forall>s\<in>set ss. s + 1 < 2 ^ 64 \<Longrightarrow>
     encode_numSegs debug ss w = Inr (w @ numSegs_bits ss)"
proof (induction ss arbitrary: w)
  case Nil
  show ?case by (simp add: numSegs_bits_def)
next
  case (Cons s ss)
  define v where "v = (of_nat (s + 1) :: u64)"
  have "s + 1 < 2 ^ 64" using Cons.prems by simp
  then have v: "v \<noteq> 0" using numSeg_code(1) v_def by blast
  have IH: "encode_numSegs debug ss (w @ gamma_bits (unat v)) =
      Inr ((w @ gamma_bits (unat v)) @ numSegs_bits ss)"
    using Cons by simp
  have bits: "numSegs_bits (s # ss) = gamma_bits (unat v) @ numSegs_bits ss"
    unfolding numSegs_bits_def v_def list.map concat.simps ..
  show ?case
    unfolding encode_numSegs.simps Let_def v_def [symmetric] bits
    using v IH by (simp add: GammaCoder_Encode_def)
qed

lemma decode_numSegs_bits:
  "\<forall>s\<in>set ss. s + 1 < 2 ^ 64 \<Longrightarrow>
     decode_numSegs (length ss) (numSegs_bits ss @ r) = Inr (ss, r)"
proof (induction ss)
  case Nil
  show ?case by (simp add: numSegs_bits_def)
next
  case (Cons s ss)
  define v where "v = (of_nat (s + 1) :: u64)"
  have "s + 1 < 2 ^ 64" using Cons.prems by simp
  then have v: "v \<noteq> 0" and undo: "unat (v - 1) = s" using numSeg_code v_def by blast+
  have dec: "GammaCoder_Decode (gamma_bits (unat v) @ numSegs_bits ss @ r) =
      Inr (v, numSegs_bits ss @ r)"
    by (rule GammaCoder_Decode_gamma_bits [OF v])
  have bits: "numSegs_bits (s # ss) = gamma_bits (unat v) @ numSegs_bits ss"
    unfolding numSegs_bits_def v_def list.map concat.simps ..
  show ?case using Cons unfolding bits by (simp add: dec undo)
qed

lemma write_oneWay_bits: "write_oneWay ows w = w @ ows"
  by (induction ows arbitrary: w) (simp_all add: BitWriter_Write_def)

lemma decode_oneWay_bits: "decode_oneWay (length ows) (ows @ r) = Inr (ows, r)"
  by (induction ows) (simp_all add: BitReader_Read_def)

lemma length_expand_group: "length (expand_group fid n ow) = n * (if ow then 1 else 2)"
  by (simp add: expand_group_def length_concat comp_def sum_list_triv)

lemma group_keys_proper:
  "list_all proper_group (fid_groups keys) \<Longrightarrow>
     group_keys keys =
       Inr (map (\<lambda>g. m_fid (hd g)) (fid_groups keys), map group_numSegs (fid_groups keys),
            map group_oneWay (fid_groups keys)) \<and>
     expand_keys (map (\<lambda>g. m_fid (hd g)) (fid_groups keys)) (map group_numSegs (fid_groups keys))
       (map group_oneWay (fid_groups keys)) = keys"
proof (induction keys rule: group_keys.induct)
  case 1
  show ?case by simp
next
  case (2 k ks)
  let ?P = "\<lambda>x. m_fid k = m_fid x"
  let ?g = "k # takeWhile ?P ks"
  let ?rest = "dropWhile ?P ks"
  have pg: "proper_group ?g" and prest: "list_all proper_group (fid_groups ?rest)"
    using "2.prems" by simp_all
  have g: "?g = expand_group (m_fid k) (group_numSegs ?g) (group_oneWay ?g)"
    using pg by (simp add: proper_group_def)
  have "length ?g = group_numSegs ?g * (if group_oneWay ?g then 1 else 2)"
    by (subst g) (rule length_expand_group)
  then have len: "Suc (length (takeWhile ?P ks)) = group_numSegs ?g * (if group_oneWay ?g then 1 else 2)"
    by simp
  then have ok: "\<not> Suc (length (takeWhile ?P ks)) mod
      (if \<not> list_ex (\<lambda>x. m_dir x = kReverseDirection) ?g then 1 else 2) \<noteq> 0"
    by (simp add: group_oneWay_def)
  note IH = "2.IH" [OF refl refl refl ok prest]
  have gk: "group_keys (k # ks) =
      Inr (m_fid k # map (\<lambda>g. m_fid (hd g)) (fid_groups ?rest),
           group_numSegs ?g # map group_numSegs (fid_groups ?rest),
           group_oneWay ?g # map group_oneWay (fid_groups ?rest))"
    using ok IH by (simp add: Let_def group_numSegs_def group_oneWay_def)
  have "expand_group (m_fid k) (group_numSegs ?g) (group_oneWay ?g) @ ?rest = k # ks"
    by (subst g [symmetric]) simp
  then show ?case using gk IH by simp
qed

lemma fid_groups_heads:
  "g \<in> set (fid_groups keys) \<Longrightarrow> g \<noteq> [] \<and> hd g \<in> set keys"
proof (induction keys rule: fid_groups.induct)
  case 1
  then show ?case by simp
next
  case (2 k ks)
  then show ?case by (auto dest: set_dropWhileD)
qed

lemma sorted_fids_of_keys: "keys_sorted keys \<Longrightarrow> sorted (map m_fid keys)"
proof -
  assume "keys_sorted keys"
  then have "sorted_wrt (\<lambda>a b. m_fid a \<le> m_fid b) keys"
    unfolding keys_sorted_def
    by (rule sorted_wrt_mono_rel [rotated]) (auto simp add: key_less_def)
  then show ?thesis by (simp add: sorted_wrt_map)
qed

lemma later_fids_greater:
  assumes "sorted (map m_fid (k # ks))" and "x \<in> set (dropWhile (\<lambda>x. m_fid k = m_fid x) ks)"
  shows "m_fid k < m_fid x"
proof -
  let ?rest = "dropWhile (\<lambda>x. m_fid k = m_fid x) ks"
  from assms(2) obtain y ys where rest: "?rest = y # ys" by (cases ?rest) auto
  then have ne: "m_fid k \<noteq> m_fid y" using hd_dropWhile [of "\<lambda>x. m_fid k = m_fid x" ks] by simp
  have "y \<in> set ks" using rest set_dropWhileD [of y "\<lambda>x. m_fid k = m_fid x" ks] by simp
  then have "m_fid k \<le> m_fid y" using assms(1) by simp
  then have lt: "m_fid k < m_fid y" using ne by simp
  have "sorted (map m_fid ks)" using assms(1) by simp
  then have "sorted_wrt (\<lambda>a b. m_fid a \<le> m_fid b) ?rest"
    by (simp add: sorted_wrt_map sorted_wrt_dropWhile)
  then have "m_fid y \<le> m_fid x" using assms(2) rest by auto
  then show ?thesis using lt by simp
qed

lemma group_fids_ascending:
  "sorted (map m_fid keys) \<Longrightarrow> sorted_wrt (<) (map (\<lambda>g. m_fid (hd g)) (fid_groups keys))"
proof (induction keys rule: fid_groups.induct)
  case 1
  show ?case by simp
next
  case (2 k ks)
  let ?rest = "dropWhile (\<lambda>x. m_fid k = m_fid x) ks"
  have "sorted (map m_fid ks)" using "2.prems" by simp
  then have "sorted_wrt (\<lambda>a b. m_fid a \<le> m_fid b) ?rest"
    by (simp add: sorted_wrt_map sorted_wrt_dropWhile)
  then have "sorted (map m_fid ?rest)" by (simp add: sorted_wrt_map)
  then have IH: "sorted_wrt (<) (map (\<lambda>g. m_fid (hd g)) (fid_groups ?rest))" by (rule "2.IH")
  have "m_fid k < m_fid (hd g)" if "g \<in> set (fid_groups ?rest)" for g
    using fid_groups_heads [OF that] later_fids_greater [OF "2.prems"] by simp
  then show ?case using IH by auto
qed

lemma fid_diff_encodable:
  fixes fid prevFid :: u32
  assumes "prevFid \<le> fid" and "fid \<noteq> 0xFFFFFFFF"
  shows "fid - prevFid + 1 \<noteq> 0"
proof
  assume "fid - prevFid + 1 = 0"
  then have "fid - prevFid = - 1" by (simp add: eq_neg_iff_add_eq_0)
  then have "unat (fid - prevFid) = 4294967295"
    by (simp add: unsigned_minus_1_eq_mask mask_eq_exp_minus_1)
  moreover have "unat (fid - prevFid) = unat fid - unat prevFid"
    using assms(1) by (rule unat_sub)
  moreover have "unat fid < 2 ^ 32" using unsigned_less [of fid] by simp
  ultimately have "unat fid = 4294967295" by simp
  then have "of_nat (unat fid) = (of_nat 4294967295 :: u32)" by simp
  then have "fid = 0xFFFFFFFF" by simp
  then show False using assms(2) by simp
qed

lemma fids_encodable_ascending:
  "sorted_wrt (<) fids \<Longrightarrow> \<forall>f\<in>set fids. prevFid \<le> f \<and> f \<noteq> 0xFFFFFFFF \<Longrightarrow>
     fids_encodable prevFid fids"
proof (induction fids arbitrary: prevFid)
  case Nil
  show ?case by simp
next
  case (Cons fid fids)
  have le: "prevFid \<le> fid" and nmax: "fid \<noteq> 0xFFFFFFFF" using Cons.prems(2) by simp_all
  have "\<forall>f\<in>set fids. fid \<le> f \<and> f \<noteq> 0xFFFFFFFF" using Cons.prems by auto
  moreover have "sorted_wrt (<) fids" using Cons.prems(1) by simp
  ultimately have "fids_encodable fid fids" by (rule Cons.IH [rotated])
  then show ?case using fid_diff_encodable [OF le nmax] by simp
qed

lemma ascending_fids_count:
  fixes fids :: "u32 list"
  assumes "sorted_wrt (<) fids"
  shows "length fids < 2 ^ 64"
proof -
  have "distinct fids" using assms by (simp add: strict_sorted_iff)
  then have "length fids = card (set fids)" by (simp add: distinct_card)
  also have "\<dots> \<le> card (UNIV :: u32 set)" by (rule card_mono) simp_all
  also have "\<dots> = 2 ^ 32" by (simp add: card_word)
  finally show ?thesis by simp
qed

lemma fid_diff_zero_iff:
  fixes fid prevFid :: u32
  assumes "prevFid \<le> fid"
  shows "fid - prevFid + 1 = 0 \<longleftrightarrow> prevFid = 0 \<and> fid = 0xFFFFFFFF"
proof
  assume z: "fid - prevFid + 1 = 0"
  have m: "fid = 0xFFFFFFFF" using fid_diff_encodable [OF assms] z by blast
  then have "- prevFid = 0" using z by simp
  then show "prevFid = 0 \<and> fid = 0xFFFFFFFF" using m by simp
next
  assume "prevFid = 0 \<and> fid = 0xFFFFFFFF"
  then show "fid - prevFid + 1 = 0" by simp
qed

lemma below_is_not_max:
  fixes f g :: u32
  assumes "f < g"
  shows "f \<noteq> 0xFFFFFFFF" and "0 < g"
proof -
  have lt: "unat f < unat g" using assms by (simp add: word_less_nat_alt)
  have "unat g < 2 ^ 32" using unsigned_less [of g] by simp
  then have "unat f < 4294967295" using lt by simp
  then show "f \<noteq> 0xFFFFFFFF" by auto
  have "unat g \<noteq> 0" using lt by simp
  then have "g \<noteq> 0" by (simp add: unat_0_iff)
  then show "0 < g" by (simp add: word_greater_zero_iff)
qed

lemma fids_encodable_after_positive:
  "sorted_wrt (<) (prevFid # fids) \<Longrightarrow> 0 < prevFid \<Longrightarrow> fids_encodable prevFid fids"
proof (induction fids arbitrary: prevFid)
  case Nil
  show ?case by simp
next
  case (Cons fid fids)
  have lt: "prevFid < fid" using Cons.prems(1) by simp
  have "prevFid \<noteq> 0" using Cons.prems(2) by auto
  then have "fid - prevFid + 1 \<noteq> 0"
    using fid_diff_zero_iff [of prevFid fid] lt by simp
  moreover have "fids_encodable fid fids"
    using Cons.prems lt by (intro Cons.IH) auto
  ultimately show ?case by simp
qed

lemma fids_encodable_sorted_iff:
  assumes "sorted_wrt (<) fids"
  shows "fids_encodable 0 fids \<longleftrightarrow> fids \<noteq> [0xFFFFFFFF] \<and> fids \<noteq> [0, 0xFFFFFFFF]"
proof (cases fids)
  case Nil
  then show ?thesis by simp
next
  case (Cons f rest)
  note outer = Cons
  show ?thesis
  proof (cases rest)
    case Nil
    then show ?thesis using outer fid_diff_zero_iff [of 0 f] by simp
  next
    case (Cons g rest')
    have fg: "f < g" using assms outer Cons by simp
    then have g0: "0 < g" by (rule below_is_not_max(2))
    have first: "f - 0 + 1 \<noteq> 0"
    proof -
      have "f \<noteq> 0xFFFFFFFF" using fg by (rule below_is_not_max(1))
      then show ?thesis using fid_diff_zero_iff [of 0 f] by simp
    qed
    have tail: "fids_encodable g rest'"
      using assms outer Cons g0 by (intro fids_encodable_after_positive) simp_all
    have last: "rest' = []" if "g = 0xFFFFFFFF"
    proof (cases rest')
      case Nil
      then show ?thesis .
    next
      case (Cons h t)
      then have "g < h" using assms outer \<open>rest = g # rest'\<close> by simp
      then show ?thesis using that below_is_not_max(1) [of g h] by simp
    qed
    have "fids_encodable 0 fids \<longleftrightarrow> g - f + 1 \<noteq> 0"
      using outer Cons first tail by simp
    also have "\<dots> \<longleftrightarrow> \<not> (f = 0 \<and> g = 0xFFFFFFFF)"
      using fid_diff_zero_iff [of f g] fg by simp
    also have "\<dots> \<longleftrightarrow> fids \<noteq> [0xFFFFFFFF] \<and> fids \<noteq> [0, 0xFFFFFFFF]"
      using outer Cons last by auto
    finally show ?thesis .
  qed
qed

lemma group_fids_sorted_encodable:
  assumes "keys_sorted keys"
  shows "fids_encodable 0 (group_fids keys) \<longleftrightarrow>
     group_fids keys \<noteq> [0xFFFFFFFF] \<and> group_fids keys \<noteq> [0, 0xFFFFFFFF]"
proof -
  have "sorted_wrt (<) (group_fids keys)"
    unfolding group_fids_def by (rule group_fids_ascending [OF sorted_fids_of_keys [OF assms]])
  then show ?thesis by (rule fids_encodable_sorted_iff)
qed

lemma group_fids_encodable:
  assumes "keys_sorted keys" and "list_all (\<lambda>k. m_fid k \<noteq> 0xFFFFFFFF) keys"
  shows "fids_encodable 0 (group_fids keys)"
proof -
  have asc: "sorted_wrt (<) (group_fids keys)"
    unfolding group_fids_def by (rule group_fids_ascending [OF sorted_fids_of_keys [OF assms(1)]])
  have "\<forall>f\<in>set (group_fids keys). 0 \<le> f \<and> f \<noteq> 0xFFFFFFFF"
    using assms(2) fid_groups_heads [of _ keys] by (auto simp add: list_all_iff group_fids_def)
  then show ?thesis by (rule fids_encodable_ascending [OF asc])
qed

lemma keys_frame:
  assumes sorted: "keys_sorted keys"
    and grouped: "list_all proper_group (fid_groups keys)"
    and enc: "fids_encodable 0 (group_fids keys)"
  shows "\<exists>data. SerializeTrafficKeys dbg keys = Inr data \<and>
           (\<forall>debug extra. DeserializeTrafficKeys debug (data @ extra) =
              (if debug \<and> extra \<noteq> [] then Inl AssertFailed else Inr keys))"
proof -
  let ?fids = "group_fids keys"
  let ?segs = "map group_numSegs (fid_groups keys)"
  let ?ows = "map group_oneWay (fid_groups keys)"
  define G where "G = length (fid_groups keys)"
  define bits where "bits = fids_bits 0 ?fids @ numSegs_bits ?segs @ ?ows"
  have gk: "group_keys keys = Inr (?fids, ?segs, ?ows)"
    and expand: "expand_keys ?fids ?segs ?ows = keys"
    using group_keys_proper [OF grouped] by (simp_all add: group_fids_def)
  have asc: "sorted_wrt (<) ?fids"
    unfolding group_fids_def by (rule group_fids_ascending [OF sorted_fids_of_keys [OF sorted]])
  have len: "length ?fids = G" by (simp add: group_fids_def G_def)
  have segs: "\<forall>s\<in>set ?segs. s + 1 < 2 ^ 64"
    using grouped by (auto simp add: list_all_iff proper_group_def)
  have ser: "SerializeTrafficKeys dbg keys = Inr (0 # WriteVarUint G @ bytes_of_bits bits)"
    by (simp add: SerializeTrafficKeys_def gk Let_def encode_fids_bits [OF enc]
        encode_numSegs_bits [OF segs] write_oneWay_bits BitWriter_drop_def
        kLatestKeysVersion_def len bits_def)
  have n: "unat (of_nat G :: u64) = G"
    using ascending_fids_count [OF asc] by (simp add: unat_of_nat len)
  have "DeserializeTrafficKeys debug ((0 # WriteVarUint G @ bytes_of_bits bits) @ extra) =
      (if debug \<and> extra \<noteq> [] then Inl AssertFailed else Inr keys)" for debug extra
  proof -
    define tail where "tail = replicate (padding (length bits)) False @ bits_of_bytes extra"
    have opened: "BitReader_open (bytes_of_bits bits @ extra) =
        fids_bits 0 ?fids @ numSegs_bits ?segs @ ?ows @ tail"
      by (simp add: BitReader_open_def bits_of_bytes_of_bits tail_def) (simp add: bits_def)
    have d1: "decode_fids G 0 (fids_bits 0 ?fids @ numSegs_bits ?segs @ ?ows @ tail) =
        Inr (?fids, numSegs_bits ?segs @ ?ows @ tail)"
      using decode_fids_bits [OF enc, of "numSegs_bits ?segs @ ?ows @ tail"]
      by (simp add: len)
    have d2: "decode_numSegs G (numSegs_bits ?segs @ ?ows @ tail) = Inr (?segs, ?ows @ tail)"
      using decode_numSegs_bits [OF segs, of "?ows @ tail"] by (simp add: G_def)
    have d3: "decode_oneWay G (?ows @ tail) = Inr (?ows, tail)"
      using decode_oneWay_bits [of ?ows tail] by (simp add: G_def)
    have closed: "BitReader_drop (bytes_of_bits bits @ extra) tail = extra"
      unfolding tail_def by (rule BitReader_drop_padding)
    show ?thesis
      by (simp add: DeserializeTrafficKeys_def ReadByte_def kLatestKeysVersion_def
          ReadVarUint_WriteVarUint n opened d1 d2 d3 closed expand)
  qed
  then show ?thesis using ser by blast
qed

lemma encode_fids_refused:
  "\<not> fids_encodable prevFid fids \<Longrightarrow> encode_fids True prevFid fids w = Inl AssertFailed"
proof (induction fids arbitrary: prevFid w)
  case Nil
  then show ?case by simp
next
  case (Cons fid fids)
  show ?case
  proof (cases "fid - prevFid + 1 = 0")
    case True
    then show ?thesis by (simp add: Let_def GammaCoder_Encode_def)
  next
    case False
    then have "\<not> fids_encodable fid fids" using Cons.prems by simp
    then show ?thesis using False Cons.IH
      by (simp add: Let_def GammaCoder_Encode_def ucast_u32_u64_eq_0)
  qed
qed

lemma keys_not_encodable_debug:
  assumes "list_all proper_group (fid_groups keys)"
    and "\<not> fids_encodable 0 (group_fids keys)"
  shows "SerializeTrafficKeys True keys = Inl AssertFailed"
  using group_keys_proper [OF assms(1)] encode_fids_refused [OF assms(2)]
  by (simp add: SerializeTrafficKeys_def Let_def group_fids_def)

lemma keys_refused_debug:
  assumes "keys_sorted keys" and "list_all proper_group (fid_groups keys)"
    and "group_fids keys = [0xFFFFFFFF] \<or> group_fids keys = [0, 0xFFFFFFFF]"
  shows "SerializeTrafficKeys True keys = Inl AssertFailed"
proof -
  have "\<not> fids_encodable 0 (group_fids keys)"
    using group_fids_sorted_encodable [OF assms(1)] assms(3) by simp
  then show ?thesis by (rule keys_not_encodable_debug [OF assms(2)])
qed

text \<open>
  C2 (as amended). For every sorted key vector whose fid-groups are the segments
  \<open>0, ..., n - 1\<close> of their fid (forward only, or both directions with the direction
  as the inner index), and whose fids are not \<open>0xFFFFFFFF\<close> alone nor \<open>0\<close> and
  \<open>0xFFFFFFFF\<close> alone, \<open>SerializeTrafficKeys\<close> produces a frame and
  \<open>DeserializeTrafficKeys\<close> returns the vector from it, which is therefore sorted by
  \<open>(fid, idx, dir)\<close>. The two excluded lists of fids are the sorted ones on which the
  32-bit \<open>fidDiff + 1\<close> wraps to 0 (\<open>fids_encodable_sorted_iff\<close>); on them a debug
  build stops (\<open>keys_refused_debug\<close>).
\<close>

theorem keys_roundtrip:
  assumes sorted: "keys_sorted keys"
    and grouped: "list_all proper_group (fid_groups keys)"
    and encodable: "group_fids keys \<noteq> [0xFFFFFFFF]" "group_fids keys \<noteq> [0, 0xFFFFFFFF]"
  shows "\<exists>data. SerializeTrafficKeys debug keys = Inr data \<and>
           DeserializeTrafficKeys debug data = Inr keys \<and> keys_sorted keys"
proof -
  have "fids_encodable 0 (group_fids keys)"
    using group_fids_sorted_encodable [OF sorted] encodable by simp
  then obtain data where "SerializeTrafficKeys debug keys = Inr data"
    and "DeserializeTrafficKeys debug (data @ []) =
      (if debug \<and> [] \<noteq> ([] :: byte list) then Inl AssertFailed else Inr keys)"
    using keys_frame [OF sorted grouped, of debug] by blast
  then show ?thesis using sorted by simp
qed

lemma decode_fids_numeral:
  "decode_fids (numeral k) p r = decode_fids (Suc (pred_numeral k)) p r"
  by (simp add: numeral_eq_Suc)

lemma decode_numSegs_numeral:
  "decode_numSegs (numeral k) r = decode_numSegs (Suc (pred_numeral k)) r"
  by (simp add: numeral_eq_Suc)

lemma decode_oneWay_numeral:
  "decode_oneWay (numeral k) r = decode_oneWay (Suc (pred_numeral k)) r"
  by (simp add: numeral_eq_Suc)

lemmas keys_eval =
  SerializeTrafficKeys_def DeserializeTrafficKeys_def kReverseDirection_def
  kLatestKeysVersion_def WriteVarUint.simps GammaCoder_Encode_def gamma_bits_def bitlen.simps
  bits_msb_def BitWriter_drop_def BitWriter_Write_def Let_def bits_lsb_numeral ReadByte_def
  ReadVarUint_def BitReader_open_def BitReader_drop_def bits_of_byte_def GammaCoder_Decode_def
  gamma_decode_def val_msb_def BitReader_Read_def expand_group_def upt_conv_Cons
  decode_fids_numeral decode_numSegs_numeral decode_oneWay_numeral

text \<open>
  C2 as stated fails. The one-key vector \<open>(fid 1, idx 5, dir 0)\<close> is sorted and its only
  group is all \<open>dir = 0\<close>, but the format stores the number of segments, not their
  indices: it comes back as \<open>(1, 0, 0)\<close>. And for the fid \<open>0xFFFFFFFF\<close> as the first
  fid the 32-bit \<open>fidDiff + 1\<close> wraps to 0, which \<open>GammaCoder::Encode\<close> refuses: a debug
  build stops at the \<open>ASSERT(ok, ())\<close>, a release build writes a frame that decodes to
  the empty vector.
\<close>

theorem keys_roundtrip_counterexample:
  "SerializeTrafficKeys True [\<lparr>m_fid = 1, m_idx = 5, m_dir = 0\<rparr>] = Inr [0, 1, 82] \<and>
   DeserializeTrafficKeys True [0, 1, 82] = Inr [\<lparr>m_fid = 1, m_idx = 0, m_dir = 0\<rparr>] \<and>
   SerializeTrafficKeys True [\<lparr>m_fid = 0xFFFFFFFF, m_idx = 0, m_dir = 0\<rparr>] = Inl AssertFailed \<and>
   SerializeTrafficKeys False [\<lparr>m_fid = 0xFFFFFFFF, m_idx = 0, m_dir = 0\<rparr>] = Inr [0, 1, 10] \<and>
   DeserializeTrafficKeys False [0, 1, 10] = Inr []"
  by (simp add: keys_eval)

theorem keys_roundtrip_witness:
  "\<exists>data. SerializeTrafficKeys True
       [\<lparr>m_fid = 1, m_idx = 0, m_dir = 0\<rparr>, \<lparr>m_fid = 1, m_idx = 0, m_dir = 1\<rparr>,
        \<lparr>m_fid = 1, m_idx = 1, m_dir = 0\<rparr>, \<lparr>m_fid = 1, m_idx = 1, m_dir = 1\<rparr>,
        \<lparr>m_fid = 2, m_idx = 0, m_dir = 0\<rparr>, \<lparr>m_fid = 2, m_idx = 1, m_dir = 0\<rparr>,
        \<lparr>m_fid = 0xFFFFFFFF, m_idx = 0, m_dir = 0\<rparr>] = Inr data \<and>
     DeserializeTrafficKeys True data =
       Inr [\<lparr>m_fid = 1, m_idx = 0, m_dir = 0\<rparr>, \<lparr>m_fid = 1, m_idx = 0, m_dir = 1\<rparr>,
        \<lparr>m_fid = 1, m_idx = 1, m_dir = 0\<rparr>, \<lparr>m_fid = 1, m_idx = 1, m_dir = 1\<rparr>,
        \<lparr>m_fid = 2, m_idx = 0, m_dir = 0\<rparr>, \<lparr>m_fid = 2, m_idx = 1, m_dir = 0\<rparr>,
        \<lparr>m_fid = 0xFFFFFFFF, m_idx = 0, m_dir = 0\<rparr>] \<and>
     keys_sorted
       [\<lparr>m_fid = 1, m_idx = 0, m_dir = 0\<rparr>, \<lparr>m_fid = 1, m_idx = 0, m_dir = 1\<rparr>,
        \<lparr>m_fid = 1, m_idx = 1, m_dir = 0\<rparr>, \<lparr>m_fid = 1, m_idx = 1, m_dir = 1\<rparr>,
        \<lparr>m_fid = 2, m_idx = 0, m_dir = 0\<rparr>, \<lparr>m_fid = 2, m_idx = 1, m_dir = 0\<rparr>,
        \<lparr>m_fid = 0xFFFFFFFF, m_idx = 0, m_dir = 0\<rparr>]"
  by (rule keys_roundtrip)
    (simp_all add: keys_sorted_def key_less_def proper_group_def group_numSegs_def
      group_oneWay_def kReverseDirection_def expand_group_def upt_conv_Cons group_fids_def)

section \<open>Restrictions round trip\<close>

lemma ucast_u64_u32_id: "(ucast (ucast x :: u64) :: u32) = x" for x :: u32
  by (rule ucast_up_ucast_id) (simp add: is_up)

lemma zigzag_biased:
  fixes d :: u32
  assumes "d \<noteq> 0x80000000"
  shows "ZigZagEncode d + 1 \<noteq> 0"
proof
  assume "ZigZagEncode d + 1 = 0"
  then have "ZigZagEncode d = - 1" by (simp add: eq_neg_iff_add_eq_0)
  then show False using assms by (simp add: ZigZagEncode_max)
qed

lemma encode_links_bits:
  "links_encodable prev fids \<Longrightarrow> encode_links prev fids bits = bits @ links_bits prev fids"
  by (induction fids arbitrary: prev bits)
    (simp_all add: Let_def DeltaCoder_Encode_def ucast_u32_u64_eq_0 zigzag_biased)

lemma decode_links_bits:
  "links_encodable prev fids \<Longrightarrow>
     decode_links (length fids) prev (links_bits prev fids @ r) = Inr (Some fids, r)"
proof (induction fids arbitrary: prev)
  case Nil
  show ?case by simp
next
  case (Cons fid fids)
  define z where "z = ZigZagEncode (fid - prev)"
  have z1: "z + 1 \<noteq> 0" and rest: "links_encodable fid fids"
    using Cons.prems by (simp_all add: z_def zigzag_biased)
  have v: "(ucast (z + 1) :: u64) \<noteq> 0" using z1 by (simp add: ucast_u32_u64_eq_0)
  have dec: "DeltaCoder_Decode (delta_bits (unat (ucast (z + 1) :: u64)) @ links_bits fid fids @ r) =
      Inr (ucast (z + 1), links_bits fid fids @ r)"
    by (rule DeltaCoder_Decode_delta_bits [OF v])
  have undo: "ZigZagDecode (z + 1 - 1) + prev = fid"
    by (simp add: z_def ZigZag_inverse)
  have bits: "links_bits prev (fid # fids) @ r =
      delta_bits (unat (ucast (z + 1) :: u64)) @ links_bits fid fids @ r"
    by (simp add: z_def)
  show ?case
    unfolding bits length_Cons decode_links.simps dec
    using z1 undo Cons.IH [OF rest] by (simp add: ucast_u64_u32_id Let_def)
qed

lemma link_count_code:
  assumes "2 \<le> n" and "n < 2 ^ 32" and "c = (of_nat (n - 1) :: u64)"
  shows "c \<noteq> 0" and "unat c = n - 1" and "(ucast c :: u32) \<noteq> 0"
    and "unat ((ucast c :: u32) + 1) = n"
proof -
  obtain m where n: "n = Suc m" and m: "0 < m" using assms(1) by (cases n) auto
  have "n - 1 < 2 ^ 64" using assms(2) by simp
  then show u: "unat c = n - 1" unfolding assms(3) by (intro of_nat_inverse [OF refl]) simp
  then have "unat c \<noteq> 0" using n m by simp
  then show "c \<noteq> 0" by (simp add: unat_0_iff)
  have "(of_nat (unat c) :: u32) = of_nat m" using u n by simp
  then have c32: "(ucast c :: u32) = of_nat m" by simp
  have "unat (of_nat m :: u32) = m"
    by (rule of_nat_inverse [OF refl]) (use assms(2) n in simp)
  then have "unat (ucast c :: u32) \<noteq> 0" using c32 m by simp
  then show "(ucast c :: u32) \<noteq> 0" by (simp add: unat_0_iff)
  have "(of_nat m :: u32) + 1 = of_nat n" using n by simp
  moreover have "unat (of_nat n :: u32) = n"
    by (rule of_nat_inverse [OF refl]) (use assms(2) in simp)
  ultimately show "unat ((ucast c :: u32) + 1) = n" using c32 by simp
qed

lemma IsValid_length: "IsValid r \<Longrightarrow> 2 \<le> length (m_featureIds r)"
  by (simp add: IsValid_def)

lemma restriction_bits_eq:
  assumes "restriction_encodable prev r"
  shows "restriction_bits prev r =
     delta_bits (length (m_featureIds r) - 1) @ links_bits prev (m_featureIds r)"
proof -
  define c where "c = (of_nat (length (m_featureIds r) - 1) :: u64)"
  have n: "2 \<le> length (m_featureIds r)" "length (m_featureIds r) < 2 ^ 32"
    and links: "links_encodable prev (m_featureIds r)"
    using assms by (simp_all add: restriction_encodable_def IsValid_def)
  note code = link_count_code [OF n c_def]
  show ?thesis
    unfolding restriction_bits_def c_def [symmetric]
    using code(1,2) by (simp add: DeltaCoder_Encode_def encode_links_bits [OF links])
qed

lemma deserialize_step:
  assumes enc: "restriction_encodable prev r" and type: "m_type r = type"
  shows "DeserializeSingleType type (Suc n) prev acc
           (bytes_of_bits (restriction_bits prev r) @ rest) =
         DeserializeSingleType type n (hd (m_featureIds r)) (acc @ [r]) rest"
proof -
  let ?fids = "m_featureIds r"
  define c where "c = (of_nat (length ?fids - 1) :: u64)"
  define src where "src = bytes_of_bits (restriction_bits prev r) @ rest"
  define tail where
    "tail = replicate (padding (length (restriction_bits prev r))) False @ bits_of_bytes rest"
  have n: "2 \<le> length ?fids" "length ?fids < 2 ^ 32"
    and links: "links_encodable prev ?fids"
    using enc by (simp_all add: restriction_encodable_def IsValid_def)
  note code = link_count_code [OF n c_def]
  have opened: "BitReader_open src = delta_bits (unat c) @ links_bits prev ?fids @ tail"
    by (simp add: BitReader_open_def src_def tail_def bits_of_bytes_of_bits
        restriction_bits_eq [OF enc] code(2))
  have count: "DeltaCoder_Decode (BitReader_open src) = Inr (c, links_bits prev ?fids @ tail)"
    unfolding opened by (rule DeltaCoder_Decode_delta_bits [OF code(1)])
  have links_back: "decode_links (unat ((ucast c :: u32) + 1)) prev (links_bits prev ?fids @ tail) =
      Inr (Some ?fids, tail)"
    unfolding code(4) by (rule decode_links_bits [OF links])
  have closed: "BitReader_drop src tail = rest"
    unfolding src_def tail_def by (rule BitReader_drop_padding)
  obtain fid fids where fids: "?fids = fid # fids" using n(1) by (cases ?fids) auto
  have r: "\<lparr>m_featureIds = fid # fids, m_type = type\<rparr> = r"
    using fids type by (cases r) simp
  show ?thesis
    unfolding src_def [symmetric] DeserializeSingleType.simps count
    using code(3) by (simp add: Let_def links_back closed) (simp add: fids r closed)
qed

lemma serialize_loop_chunks:
  "restrictions_encodable prev rs \<Longrightarrow> list_all (\<lambda>r. m_type r = type) rs \<Longrightarrow>
     serialize_loop type prev rs sink = Inr (sink @ restriction_chunks prev rs)"
proof (induction rs arbitrary: prev sink)
  case Nil
  show ?case by simp
next
  case (Cons r rs)
  have "IsValid r" using Cons.prems(1) by (simp add: restriction_encodable_def)
  moreover from this have "1 < length (m_featureIds r)" by (simp add: IsValid_def)
  ultimately show ?case using Cons by (simp add: BitWriter_drop_def)
qed

lemma deserialize_chunks:
  "restrictions_encodable prev rs \<Longrightarrow> list_all (\<lambda>r. m_type r = type) rs \<Longrightarrow>
     DeserializeSingleType type (length rs) prev acc (restriction_chunks prev rs @ rest) =
       Inr (True, acc @ rs, rest)"
proof (induction rs arbitrary: prev acc)
  case Nil
  show ?case by simp
next
  case (Cons r rs)
  have enc: "restriction_encodable prev r" and type: "m_type r = type"
    using Cons.prems by simp_all
  have "DeserializeSingleType type (Suc (length rs)) prev acc
      (bytes_of_bits (restriction_bits prev r) @ restriction_chunks (hd (m_featureIds r)) rs @ rest) =
      DeserializeSingleType type (length rs) (hd (m_featureIds r)) (acc @ [r])
        (restriction_chunks (hd (m_featureIds r)) rs @ rest)"
    by (rule deserialize_step [OF enc type])
  then show ?case using Cons by simp
qed

lemma is_sorted_append: "is_sorted (xs @ ys) \<Longrightarrow> is_sorted xs \<and> is_sorted ys"
proof (induction xs)
  case Nil
  then show ?case by simp
next
  case (Cons a xs)
  show ?case
  proof (cases xs)
    case Nil
    then show ?thesis using Cons.prems by (cases ys) simp_all
  next
    case (Cons b xs')
    then show ?thesis using Cons.IH Cons.prems by simp
  qed
qed

lemma SerializeSingleType_chunks:
  assumes "is_sorted rs" and "restrictions_encodable 0 rs"
    and "list_all (\<lambda>r. m_type r = type) rs"
  shows "SerializeSingleType rs sink = Inr (sink @ restriction_chunks 0 rs)"
proof (cases rs)
  case Nil
  then show ?thesis by (simp add: SerializeSingleType_def)
next
  case (Cons r rs')
  then have "m_type r = type" using assms(3) by simp
  then show ?thesis
    using assms Cons serialize_loop_chunks [OF assms(2,3), of sink]
    by (simp add: SerializeSingleType_def)
qed

text \<open>
  C1 (as amended). For every sorted restriction vector split into its \<open>No\<close> part and
  its \<open>Only\<close> part, fewer than \<open>2^32\<close> restrictions in each, every restriction valid
  (at least 2 ids, none of them the sentinel) with fewer than \<open>2^32\<close> ids, and no id
  that differs by \<open>0x80000000\<close> from the id before it (for a first id: from the first
  id of the restriction before, or from 0), \<open>Serialize\<close> produces a payload from which
  \<open>Deserialize\<close>, given the header with the two counts, returns the vector: the \<open>No\<close>
  entries first, the \<open>Only\<close> entries after, and the source consumed.
\<close>

theorem restrictions_roundtrip:
  assumes sorted: "is_sorted (nos @ onlys)"
    and partitioned: "list_all (\<lambda>r. m_type r = No) nos" "list_all (\<lambda>r. m_type r = Only) onlys"
    and encodable: "restrictions_encodable 0 nos" "restrictions_encodable 0 onlys"
    and counts: "length nos < 2 ^ 32" "length onlys < 2 ^ 32"
  shows "\<exists>data. Serialize nos onlys [] = Inr data \<and>
           Deserialize \<lparr>m_version = 0, m_reserved = 0,
               m_noRestrictionCount = of_nat (length nos),
               m_onlyRestrictionCount = of_nat (length onlys)\<rparr> [] data =
             Inr (nos @ onlys, [])"
proof -
  let ?data = "restriction_chunks 0 nos @ restriction_chunks 0 onlys"
  have s: "is_sorted nos" "is_sorted onlys" using is_sorted_append [OF sorted] by simp_all
  have ser: "Serialize nos onlys [] = Inr ?data"
    by (simp add: Serialize_def SerializeSingleType_chunks [OF s(1) encodable(1) partitioned(1)]
        SerializeSingleType_chunks [OF s(2) encodable(2) partitioned(2)])
  have n1: "unat (of_nat (length nos) :: u32) = length nos"
    by (rule of_nat_inverse [OF refl]) (use counts(1) in simp)
  have n2: "unat (of_nat (length onlys) :: u32) = length onlys"
    by (rule of_nat_inverse [OF refl]) (use counts(2) in simp)
  have d1: "DeserializeSingleType No (length nos) 0 [] ?data =
      Inr (True, nos, restriction_chunks 0 onlys)"
    using deserialize_chunks [OF encodable(1) partitioned(1), of "[]" "restriction_chunks 0 onlys"]
    by simp
  have d2: "DeserializeSingleType Only (length onlys) 0 nos (restriction_chunks 0 onlys) =
      Inr (True, nos @ onlys, [])"
    using deserialize_chunks [OF encodable(2) partitioned(2), of nos "[]"] by simp
  have "Deserialize \<lparr>m_version = 0, m_reserved = 0,
               m_noRestrictionCount = of_nat (length nos),
               m_onlyRestrictionCount = of_nat (length onlys)\<rparr> [] ?data = Inr (nos @ onlys, [])"
    by (simp add: Deserialize_def n1 n2 d1 d2)
  then show ?thesis using ser by blast
qed

lemma encode_links_codewords:
  "encode_links prev fids bits = bits @ link_codewords prev fids"
  by (induction fids arbitrary: prev bits)
    (simp_all add: Let_def DeltaCoder_Encode_def ucast_u32_u64_eq_0)

lemma restriction_bits_codewords: "restriction_bits prev r = restriction_codewords prev r"
  by (simp add: restriction_bits_def restriction_codewords_def DeltaCoder_Encode_def
      encode_links_codewords)

lemma restriction_runs_Cons:
  "restriction_runs prev (r # rs) =
     bytes_of_bits (restriction_bits prev r) # restriction_runs (hd (m_featureIds r)) rs"
  by (simp add: restriction_runs_def restriction_bits_codewords)

lemma restriction_runs_Nil: "restriction_runs prev [] = []"
  by (simp add: restriction_runs_def)

lemma serialize_loop_runs:
  "list_all (\<lambda>r. m_type r = type \<and> IsValid r) rs \<Longrightarrow>
     serialize_loop type prev rs sink = Inr (sink @ concat (restriction_runs prev rs))"
proof (induction rs arbitrary: prev sink)
  case Nil
  show ?case by (simp add: restriction_runs_Nil)
next
  case (Cons r rs)
  have "IsValid r" and "m_type r = type" using Cons.prems by simp_all
  moreover from this have "1 < length (m_featureIds r)" by (simp add: IsValid_def)
  ultimately show ?case using Cons by (simp add: BitWriter_drop_def restriction_runs_Cons)
qed

lemma SerializeSingleType_runs:
  assumes "is_sorted rs" and "list_all (\<lambda>r. m_type r = type \<and> IsValid r) rs"
  shows "SerializeSingleType rs sink = Inr (sink @ concat (restriction_runs 0 rs))"
proof (cases rs)
  case Nil
  then show ?thesis by (simp add: SerializeSingleType_def restriction_runs_Nil)
next
  case (Cons r rs')
  then have "m_type r = type" using assms(2) by simp
  then show ?thesis
    using assms(1) Cons serialize_loop_runs [OF assms(2), of 0 sink]
    by (simp add: SerializeSingleType_def)
qed

lemma runs_bits:
  "map bits_of_bytes (restriction_runs prev rs) =
     map (\<lambda>bits. bits @ replicate (padding (length bits)) False) (restriction_streams prev rs)"
  by (simp add: restriction_runs_def bits_of_bytes_of_bits)

lemma deserialize_runs:
  "restrictions_encodable prev rs \<Longrightarrow> list_all (\<lambda>r. m_type r = type) rs \<Longrightarrow>
   k \<le> length rs \<Longrightarrow>
     DeserializeSingleType type k prev acc (concat (restriction_runs prev rs) @ rest) =
       Inr (True, acc @ take k rs, concat (drop k (restriction_runs prev rs)) @ rest)"
proof (induction rs arbitrary: k prev acc)
  case Nil
  then show ?case by (simp add: restriction_runs_Nil)
next
  case (Cons r rs)
  show ?case
  proof (cases k)
    case 0
    then show ?thesis by simp
  next
    case (Suc k')
    have enc: "restriction_encodable prev r" and type: "m_type r = type"
      and rest_enc: "restrictions_encodable (hd (m_featureIds r)) rs"
      and rest_type: "list_all (\<lambda>r. m_type r = type) rs" and k': "k' \<le> length rs"
      using Cons.prems Suc by simp_all
    have "DeserializeSingleType type (Suc k') prev acc
        (bytes_of_bits (restriction_bits prev r) @
         concat (restriction_runs (hd (m_featureIds r)) rs) @ rest) =
        DeserializeSingleType type k' (hd (m_featureIds r)) (acc @ [r])
          (concat (restriction_runs (hd (m_featureIds r)) rs) @ rest)"
      by (rule deserialize_step [OF enc type])
    then show ?thesis
      using Cons.IH [OF rest_enc rest_type k', of "acc @ [r]"] Suc
      by (simp add: restriction_runs_Cons)
  qed
qed

lemma long_restriction_not_decoded:
  assumes "length (m_featureIds r) = 2 ^ 32"
  shows "DeserializeSingleType type (Suc n) prev acc
           (bytes_of_bits (restriction_bits prev r) @ rest) = Inl OutOfBounds"
proof -
  define c where "c = (of_nat (length (m_featureIds r) - 1) :: u64)"
  define tail where "tail = link_codewords prev (m_featureIds r) @
    replicate (padding (length (restriction_bits prev r))) False @ bits_of_bytes rest"
  have c: "c = 0xFFFFFFFF" by (simp add: c_def assms)
  then have c0: "c \<noteq> 0" by simp
  have "restriction_bits prev r = delta_bits (unat c) @ link_codewords prev (m_featureIds r)"
    using c0 by (simp add: restriction_bits_codewords restriction_codewords_def c_def)
  then have opened: "BitReader_open (bytes_of_bits (restriction_bits prev r) @ rest) =
      delta_bits (unat c) @ tail"
    by (simp add: BitReader_open_def bits_of_bytes_of_bits tail_def)
  have count: "DeltaCoder_Decode (BitReader_open (bytes_of_bits (restriction_bits prev r) @ rest)) =
      Inr (c, tail)"
    unfolding opened by (rule DeltaCoder_Decode_delta_bits [OF c0])
  show ?thesis
    unfolding DeserializeSingleType.simps count by (simp add: c Let_def)
qed

text \<open>
  C10 (as amended). For a sorted group of restrictions of one type that are all valid,
  \<open>SerializeSingleType\<close> appends to the sink one run of whole bytes per restriction,
  in order: the codewords of the restriction followed by the fewer than 8 zero bits
  that fill its last byte, so that the codeword stream of every restriction starts at
  a byte boundary. When moreover every restriction has fewer than \<open>2^32\<close> ids and no
  id differs by \<open>0x80000000\<close> from the id before it (for a first id: from the first
  id of the restriction before, or from 0), \<open>DeserializeSingleType\<close> reading \<open>k\<close>
  restrictions from these bytes returns the first \<open>k\<close> restrictions and leaves the
  source at the first byte of the run after them: the bit reader of every restriction
  is constructed at the boundary where the bit writer of that restriction was.
\<close>

theorem restriction_alignment:
  assumes "is_sorted rs" and "list_all (\<lambda>r. m_type r = type \<and> IsValid r) rs"
  shows "SerializeSingleType rs sink = Inr (sink @ concat (restriction_runs 0 rs)) \<and>
         map bits_of_bytes (restriction_runs 0 rs) =
           map (\<lambda>bits. bits @ replicate (padding (length bits)) False)
             (restriction_streams 0 rs) \<and>
         list_all (\<lambda>bits. padding (length bits) < 8) (restriction_streams 0 rs) \<and>
         (restrictions_encodable 0 rs \<longrightarrow>
            (\<forall>k\<le>length rs.
               DeserializeSingleType type k 0 acc (concat (restriction_runs 0 rs) @ rest) =
                 Inr (True, acc @ take k rs, concat (drop k (restriction_runs 0 rs)) @ rest)))"
proof -
  have types: "list_all (\<lambda>r. m_type r = type) rs"
    using assms(2) by (simp add: list_all_iff)
  show ?thesis
    using SerializeSingleType_runs [OF assms] runs_bits [of 0 rs] deserialize_runs [OF _ types]
    by (simp add: list_all_iff padding_less)
qed

theorem restrictions_roundtrip_witness:
  "\<exists>data. Serialize
       [\<lparr>m_featureIds = [10, 11], m_type = No\<rparr>, \<lparr>m_featureIds = [10, 12, 13], m_type = No\<rparr>]
       [\<lparr>m_featureIds = [5, 6], m_type = Only\<rparr>] [] = Inr data \<and>
     Deserialize \<lparr>m_version = 0, m_reserved = 0, m_noRestrictionCount = 2,
         m_onlyRestrictionCount = 1\<rparr> [] data =
       Inr ([\<lparr>m_featureIds = [10, 11], m_type = No\<rparr>,
             \<lparr>m_featureIds = [10, 12, 13], m_type = No\<rparr>,
             \<lparr>m_featureIds = [5, 6], m_type = Only\<rparr>], [])"
  using restrictions_roundtrip [of
      "[\<lparr>m_featureIds = [10, 11], m_type = No\<rparr>, \<lparr>m_featureIds = [10, 12, 13], m_type = No\<rparr>]"
      "[\<lparr>m_featureIds = [5, 6], m_type = Only\<rparr>]"]
  by (simp add: restriction_less_def restriction_encodable_def IsValid_def
      kInvalidFeatureId_def)

text \<open>
  C1 as stated fails. A restriction with two ids, one of them the sentinel
  \<open>0xFFFFFFFF\<close>, stops at \<open>CHECK(restriction.IsValid(), ())\<close>. And the restriction
  \<open>[0x80000000, 0]\<close> is serialized to the single byte \<open>01\<close>: both of its differences
  are \<open>0x80000000\<close>, for which \<open>delta + 1\<close> wraps to 0 and \<open>DeltaCoder::Encode\<close> writes
  nothing; reading it back runs off the end of the source.
\<close>

theorem restrictions_roundtrip_counterexample:
  "Serialize [\<lparr>m_featureIds = [1, 0xFFFFFFFF], m_type = No\<rparr>] [] [] = Inl InvalidRestriction \<and>
   Serialize [\<lparr>m_featureIds = [0x80000000, 0], m_type = No\<rparr>] [] [] = Inr [1] \<and>
   Deserialize \<lparr>m_version = 0, m_reserved = 0, m_noRestrictionCount = 1,
       m_onlyRestrictionCount = 0\<rparr> [] [1] = Inl EndOfInput"
  by (simp add: Serialize_def SerializeSingleType_def IsValid_def kInvalidFeatureId_def
      restriction_bits_def DeltaCoder_Encode_def delta_bits_def gamma_bits_def bitlen.simps
      bits_msb_def ZigZagEncode_def sign_fill BitWriter_drop_def
      Deserialize_def DeltaCoder_Decode_def delta_decode_def gamma_decode_def
      BitReader_open_def bits_of_byte_def val_msb_def BitReader_drop_def bits_lsb_numeral
      decode_links_numeral)

theorem restriction_alignment_witness:
  "SerializeSingleType
     [\<lparr>m_featureIds = [10, 11], m_type = No\<rparr>, \<lparr>m_featureIds = [10, 12, 13], m_type = No\<rparr>]
     [7] = Inr ([7] @ concat [[169, 42], [210, 42]]) \<and>
   restriction_runs 0
     [\<lparr>m_featureIds = [10, 11], m_type = No\<rparr>, \<lparr>m_featureIds = [10, 12, 13], m_type = No\<rparr>] =
     [[169, 42], [210, 42]] \<and>
   DeserializeSingleType No 1 0 [] (concat [[169, 42], [210, 42]] @ [9]) =
     Inr (True, [\<lparr>m_featureIds = [10, 11], m_type = No\<rparr>], concat [[210, 42]] @ [9])"
proof -
  let ?rs = "[\<lparr>m_featureIds = [10, 11], m_type = No\<rparr>,
    \<lparr>m_featureIds = [10, 12, 13], m_type = No\<rparr>]"
  have runs: "restriction_runs 0 ?rs = [[169, 42], [210, 42]]"
    by (simp add: restriction_runs_def restriction_codewords_def delta_bits_def gamma_bits_def
        bitlen.simps bits_msb_def ZigZagEncode_def sign_fill bits_lsb_numeral)
  have sorted: "is_sorted ?rs" by (simp add: restriction_less_def)
  have valid: "list_all (\<lambda>r. m_type r = No \<and> IsValid r) ?rs"
    by (simp add: IsValid_def kInvalidFeatureId_def)
  have enc: "restrictions_encodable 0 ?rs"
    by (simp add: restriction_encodable_def IsValid_def kInvalidFeatureId_def)
  note aligned = restriction_alignment [OF sorted valid, of "[7]" "[]" "[9]"]
  have ser: "SerializeSingleType ?rs [7] = Inr ([7] @ concat [[169, 42], [210, 42]])"
    using aligned by (simp only: runs)
  have "\<forall>k\<le>length ?rs.
      DeserializeSingleType No k 0 [] (concat (restriction_runs 0 ?rs) @ [9]) =
        Inr (True, [] @ take k ?rs, concat (drop k (restriction_runs 0 ?rs)) @ [9])"
    using aligned enc by blast
  then have dec: "DeserializeSingleType No 1 0 [] (concat [[169, 42], [210, 42]] @ [9]) =
      Inr (True, [\<lparr>m_featureIds = [10, 11], m_type = No\<rparr>], concat [[210, 42]] @ [9])"
    by (simp add: runs del: DeserializeSingleType.simps)
  show ?thesis using ser runs dec by blast
qed

text \<open>
  C10 as stated fails on the side of the decoder. A valid restriction of \<open>2^32\<close> ids is
  written with the link count \<open>0xFFFFFFFF\<close>; the decoder's 32-bit
  \<open>biasedLinkNumber + 1\<close> is 0 and its \<open>m_featureIds[0]\<close> is out of bounds. And in the
  valid restriction \<open>[2, 0x80000002]\<close> the second difference is \<open>0x80000000\<close>, for
  which \<open>delta + 1\<close> wraps to 0 and \<open>DeltaCoder::Encode\<close> writes nothing: its run is
  the byte \<open>2D\<close> and the run of the next restriction \<open>[3, 4]\<close> is \<open>55 01\<close>, but the
  bit reader of the first restriction reads its second id out of the byte \<open>55\<close> and
  the bit reader of the second restriction would be constructed at the byte \<open>01\<close>.
\<close>

theorem restriction_alignment_counterexample:
  "IsValid \<lparr>m_featureIds = replicate 4294967296 0, m_type = No\<rparr> \<and>
   DeserializeSingleType No 1 0 []
     (bytes_of_bits (restriction_bits 0 \<lparr>m_featureIds = replicate 4294967296 0, m_type = No\<rparr>)) =
     Inl OutOfBounds \<and>
   SerializeSingleType
     [\<lparr>m_featureIds = [2, 0x80000002], m_type = No\<rparr>, \<lparr>m_featureIds = [3, 4], m_type = No\<rparr>]
     [] = Inr [0x2D, 0x55, 0x01] \<and>
   restriction_runs 0
     [\<lparr>m_featureIds = [2, 0x80000002], m_type = No\<rparr>, \<lparr>m_featureIds = [3, 4], m_type = No\<rparr>] =
     [[0x2D], [0x55, 0x01]] \<and>
   DeserializeSingleType No 1 0 [] [0x2D, 0x55, 0x01] =
     Inr (True, [\<lparr>m_featureIds = [2, 12], m_type = No\<rparr>], [0x01])"
proof -
  have a: "IsValid \<lparr>m_featureIds = replicate 4294967296 0, m_type = No\<rparr>"
    by (simp add: IsValid_def kInvalidFeatureId_def)
  have b: "DeserializeSingleType No 1 0 []
     (bytes_of_bits (restriction_bits 0 \<lparr>m_featureIds = replicate 4294967296 0, m_type = No\<rparr>)) =
     Inl OutOfBounds"
    using long_restriction_not_decoded
      [of "\<lparr>m_featureIds = replicate 4294967296 0, m_type = No\<rparr>" No 0 0 "[]" "[]"]
    by simp
  have runs: "restriction_runs 0
     [\<lparr>m_featureIds = [2, 0x80000002], m_type = No\<rparr>, \<lparr>m_featureIds = [3, 4], m_type = No\<rparr>] =
     [[0x2D], [0x55, 0x01]]"
    by (simp add: restriction_runs_def restriction_codewords_def delta_bits_def gamma_bits_def
        bitlen.simps bits_msb_def ZigZagEncode_def sign_fill bits_lsb_numeral)
  have ser: "SerializeSingleType
     [\<lparr>m_featureIds = [2, 0x80000002], m_type = No\<rparr>, \<lparr>m_featureIds = [3, 4], m_type = No\<rparr>]
     [] = Inr [0x2D, 0x55, 0x01]"
    using SerializeSingleType_runs [of
      "[\<lparr>m_featureIds = [2, 0x80000002], m_type = No\<rparr>, \<lparr>m_featureIds = [3, 4], m_type = No\<rparr>]"
      No "[]"]
    by (simp add: runs restriction_less_def IsValid_def kInvalidFeatureId_def)
  have dec: "DeserializeSingleType No 1 0 [] [0x2D, 0x55, 0x01] =
     Inr (True, [\<lparr>m_featureIds = [2, 12], m_type = No\<rparr>], [0x01])"
    by (simp add: DeltaCoder_Decode_def delta_decode_def gamma_decode_def BitReader_open_def
        bits_of_byte_def val_msb_def BitReader_drop_def bits_lsb_numeral decode_links_numeral
        ZigZagDecode_def)
  show ?thesis using a b runs ser dec by simp
qed

section \<open>Trailing bytes after a frame\<close>

text \<open>What C7 is about, for every frame: bytes after a well-formed keys frame, and after
  a well-formed values buffer, stop a debug build and are ignored by a release
  build.\<close>

lemma trailing_bytes_after_keys:
  assumes "keys_sorted keys"
    and "list_all proper_group (fid_groups keys)"
    and "fids_encodable 0 (group_fids keys)"
    and "extra \<noteq> []"
  shows "\<exists>data. SerializeTrafficKeys False keys = Inr data \<and>
           DeserializeTrafficKeys False (data @ extra) = Inr keys \<and>
           DeserializeTrafficKeys True (data @ extra) = Inl AssertFailed"
proof -
  obtain data where "SerializeTrafficKeys False keys = Inr data"
    and "\<forall>debug extra. DeserializeTrafficKeys debug (data @ extra) =
      (if debug \<and> extra \<noteq> [] then Inl AssertFailed else Inr keys)"
    using keys_frame [OF assms(1-3), of False] by blast
  then show ?thesis using assms(4) by simp
qed

lemma values_frame:
  assumes range: "\<forall>v\<in>set V. v < 8"
    and count: "length V < 2 ^ 32"
  shows "DeserializeTrafficValues debug Inr (SerializeTrafficValues id V @ extra) =
           (if debug \<and> extra \<noteq> [] then Inl AssertFailed else Inr V)"
proof -
  define tail where
    "tail = replicate (padding (length (values_bits V))) False @ bits_of_bytes extra"
  have n: "unat (of_nat (length V) :: u32) = length V"
    using count by (simp add: unat_of_nat)
  have rd: "read_values (length V) (BitReader_open (bytes_of_bits (values_bits V) @ extra)) =
      Inr (V, tail)"
    using read_values_bits [OF range, of tail]
    by (simp add: BitReader_open_def bits_of_bytes_of_bits tail_def)
  have closed: "BitReader_drop (bytes_of_bits (values_bits V) @ extra) tail = extra"
    unfolding tail_def by (rule BitReader_drop_padding)
  show ?thesis
    by (simp add: values_buffer DeserializeTrafficValues_def ReadByte_def
        kLatestValuesVersion_def ReadVarUint_WriteVarUint n rd closed)
qed

end
